theory Spec2Isabelle
  imports Main "HOL-Library.Sublist"
begin

section \<open>gtest: fixture registry, contract validation, resolver and orchestrator\<close>

text \<open>
  A shallow embedding of \<^verbatim>\<open>gtest.go\<close>. The reflective view of Go types that the code
  consults (\<^verbatim>\<open>reflect.Type\<close>: \<^verbatim>\<open>String()\<close>, \<^verbatim>\<open>Kind()\<close>, \<^verbatim>\<open>NumField()\<close>/\<^verbatim>\<open>Field(j)\<close>,
  \<^verbatim>\<open>MethodByName\<close>, \<^verbatim>\<open>NumIn\<close>/\<^verbatim>\<open>In\<close>/\<^verbatim>\<open>NumOut\<close>) is data; the code of the fixtures, of the
  hooks and of the test methods is a parameter that transforms a user state; the calls
  the engine makes are recorded, in order, in a trace.
\<close>

subsection \<open>Scopes and constants\<close>

type_synonym FixtureScope = string

definition ScopeSubTest :: FixtureScope where
  "ScopeSubTest = ''subtest''"

definition ScopeCall :: FixtureScope where
  "ScopeCall = ''call''"

definition testMethodPrefix :: string where
  "testMethodPrefix = ''SubTest''"

subsection \<open>The reflective view of types\<close>

text \<open>
  \<^verbatim>\<open>reflect.Kind\<close>: only \<^verbatim>\<open>Struct\<close> is tested by the code; \<open>OtherKind k\<close> is the kind with
  numeric code \<open>k\<close> (the code prints it with \<^verbatim>\<open>%d\<close>).
\<close>

datatype Kind = Struct | Ptr | Interface | OtherKind nat

text \<open>
  What \<^verbatim>\<open>structtag.Parse(string(field.Tag))\<close> followed by \<^verbatim>\<open>tags.Get("fixture")\<close> yields
  for a field: the tag does not parse, it parses and has no \<^verbatim>\<open>fixture\<close> key, or the key is
  there and \<open>TagFixture n\<close> carries its \<^verbatim>\<open>Name\<close>. (The tag parser is a library outside this
  repository; a field carries the outcome of parsing its tag.)
\<close>

datatype FieldTag = TagInvalid | TagNoFixture | TagFixture string

text \<open>
  \<^verbatim>\<open>reflect.StructField\<close>: name, the \<^verbatim>\<open>String()\<close> of its type, tag, and whether the field of
  a freshly allocated addressable struct value can be set (\<^verbatim>\<open>CanSet()\<close>: the field is
  exported).
\<close>

record StructField =
  fieldName :: string
  fieldType :: string
  fieldTag :: FieldTag
  fieldCanSet :: bool

text \<open>A \<^verbatim>\<open>reflect.Type\<close> in parameter or result position.\<close>

record rtype =
  typeString :: string
  typeKind :: Kind
  typeFields :: "StructField list"

text \<open>
  \<^verbatim>\<open>reflect.Method\<close>. \<open>methodIn\<close> lists the parameters after the receiver, so that
  \<^verbatim>\<open>Type.NumIn()\<close> is one more than its length and \<^verbatim>\<open>Type.In(i)\<close>, for \<open>i \<ge> 1\<close>, is its
  element \<open>i - 1\<close>.
\<close>

record Method =
  methodName :: string
  methodIn :: "rtype list"
  methodOut :: "rtype list"

definition NumIn :: "Method \<Rightarrow> nat" where
  "NumIn m = length (methodIn m) + 1"

definition NumOut :: "Method \<Rightarrow> nat" where
  "NumOut m = length (methodOut m)"

definition In :: "Method \<Rightarrow> nat \<Rightarrow> rtype" where
  "In m i = methodIn m ! (i - 1)"

definition Out :: "Method \<Rightarrow> nat \<Rightarrow> rtype" where
  "Out m i = methodOut m ! i"

text \<open>
  The dynamic type of a fixture instance or of a test group: its \<^verbatim>\<open>String()\<close> and its
  exported methods in the order \<^verbatim>\<open>Method(i)\<close> enumerates them.
\<close>

record itype =
  itypeString :: string
  itypeMethods :: "Method list"

definition MethodByName :: "itype \<Rightarrow> string \<Rightarrow> Method option" where
  "MethodByName T n = find (\<lambda>m. methodName m = n) (itypeMethods T)"

text \<open>
  A non-nil \<^verbatim>\<open>interface{}\<close> value holding a fixture: its dynamic type and an identity
  standing for its data (a pointer). Two such values are the same map key when both agree.
\<close>

record fixtureInstance =
  instId :: nat
  instType :: itype

definition TypeOf :: "fixtureInstance \<Rightarrow> itype" where
  "TypeOf f = instType f"

subsection \<open>Errors\<close>

text \<open>
  One constructor for each message the code builds with \<^verbatim>\<open>fmt.Errorf\<close> or reports with
  \<^verbatim>\<open>t.Fatalf\<close>, with the arguments of the format string.
\<close>

datatype error =
    AlreadyRegistered string FixtureScope
  | MissingConstruct string
  | ConstructNumIn string nat
  | ConstructNumOut string nat
  | ConstructFirstArg string string
  | ConstructSecondArg string
  | MissingDestruct string
  | DestructNumIn string nat
  | DestructFirstArg string string
  | DestructSecondArg string string
  | InvalidFixturesType Kind
  | InvalidTagEncountered
  | MissingFixtureTag string string string
  | UnregisteredFixtureFound string string
  | NotExportedField string string
  | NoParameter string
  | FirstParameterNotT string string
  | TooManyParameters string nat

text \<open>The error classes of the specification, as sets of messages.\<close>

fun DuplicateName :: "error \<Rightarrow> bool" where
  "DuplicateName (AlreadyRegistered n s) = True"
| "DuplicateName e = False"

fun InvalidContract :: "error \<Rightarrow> bool" where
  "InvalidContract (MissingConstruct T) = True"
| "InvalidContract (ConstructNumIn T n) = True"
| "InvalidContract (ConstructNumOut T n) = True"
| "InvalidContract (ConstructFirstArg T a) = True"
| "InvalidContract (ConstructSecondArg T) = True"
| "InvalidContract (MissingDestruct T) = True"
| "InvalidContract (DestructNumIn T n) = True"
| "InvalidContract (DestructFirstArg T a) = True"
| "InvalidContract (DestructSecondArg T a) = True"
| "InvalidContract e = False"

fun UnregisteredFixture :: "error \<Rightarrow> bool" where
  "UnregisteredFixture (UnregisteredFixtureFound c n) = True"
| "UnregisteredFixture e = False"

fun FieldNotAssignable :: "error \<Rightarrow> bool" where
  "FieldNotAssignable (NotExportedField c n) = True"
| "FieldNotAssignable e = False"

fun MalformedTestSignature :: "error \<Rightarrow> bool" where
  "MalformedTestSignature (NoParameter m) = True"
| "MalformedTestSignature (FirstParameterNotT m a) = True"
| "MalformedTestSignature (TooManyParameters m n) = True"
| "MalformedTestSignature e = False"

subsection \<open>Registry and contract validation\<close>

record FixtureEntry =
  Scope :: FixtureScope
  Instance :: fixtureInstance

type_synonym registry = "string \<rightharpoonup> FixtureEntry"

definition validateFixtureConstructMethod :: "itype \<Rightarrow> error option" where
  "validateFixtureConstructMethod fType =
     (case MethodByName fType ''Construct'' of
        None \<Rightarrow> Some (MissingConstruct (itypeString fType))
      | Some constructMethod \<Rightarrow>
          if NumIn constructMethod \<noteq> 3 then
            Some (ConstructNumIn (itypeString fType) (NumIn constructMethod - 1))
          else if NumOut constructMethod \<noteq> 2 then
            Some (ConstructNumOut (itypeString fType) (NumOut constructMethod))
          else
            let arg1 = In constructMethod 1 in
            if typeString arg1 \<noteq> ''*testing.T'' then
              Some (ConstructFirstArg (itypeString fType) (typeString arg1))
            else
              let arg2 = In constructMethod 2 in
              if typeKind arg2 \<noteq> Struct then
                Some (ConstructSecondArg (itypeString fType))
              else None)"

definition validateFixtureDestructMethod :: "itype \<Rightarrow> error option" where
  "validateFixtureDestructMethod fType =
     (case MethodByName fType ''Destruct'' of
        None \<Rightarrow> Some (MissingDestruct (itypeString fType))
      | Some destructMethod \<Rightarrow>
          if NumIn destructMethod \<noteq> 3 then
            Some (DestructNumIn (itypeString fType) (NumIn destructMethod - 1))
          else
            let arg1 = In destructMethod 1 in
            if typeString arg1 \<noteq> ''*testing.T'' then
              Some (DestructFirstArg (itypeString fType) (typeString arg1))
            else
              let arg2 = In destructMethod 2 in
              if typeString arg2 \<noteq> ''interface {}'' then
                Some (DestructSecondArg (itypeString fType) (typeString arg2))
              else None)"

text \<open>
  \<^verbatim>\<open>RegisterFixture\<close> reads and writes the package variable \<^verbatim>\<open>registeredFixtures\<close>; here
  the map is passed in and returned with the error (\<open>None\<close> is Go's \<^verbatim>\<open>nil\<close> error).
\<close>

definition RegisterFixture ::
  "registry \<Rightarrow> string \<Rightarrow> fixtureInstance \<Rightarrow> FixtureScope \<Rightarrow> error option \<times> registry" where
  "RegisterFixture registeredFixtures name f scope =
     (case registeredFixtures name of
        Some entry \<Rightarrow> (Some (AlreadyRegistered name (Scope entry)), registeredFixtures)
      | None \<Rightarrow>
          let fType = TypeOf f in
          (case validateFixtureConstructMethod fType of
             Some err \<Rightarrow> (Some err, registeredFixtures)
           | None \<Rightarrow>
               (case validateFixtureDestructMethod fType of
                  Some err \<Rightarrow> (Some err, registeredFixtures)
                | None \<Rightarrow>
                    (None, registeredFixtures(name \<mapsto> \<lparr>Scope = scope, Instance = f\<rparr>)))))"

definition GetFixture :: "registry \<Rightarrow> string \<Rightarrow> FixtureEntry option" where
  "GetFixture registeredFixtures name = registeredFixtures name"

subsection \<open>Execution handles, user code, the trace\<close>

text \<open>
  A \<^verbatim>\<open>*testing.T\<close>: the handle \<^verbatim>\<open>RunSubTests\<close> receives, or the one \<^verbatim>\<open>t.Run(name, ...)\<close>
  hands to its closure.
\<close>

datatype handle = GroupT | SubT string

text \<open>
  How a call of user code ends: it returns (having possibly recorded a failure with
  \<^verbatim>\<open>t.Errorf\<close> or \<^verbatim>\<open>t.Fail\<close>, which is part of the user state), or it ends its goroutine
  with \<^verbatim>\<open>t.FailNow\<close>, \<^verbatim>\<open>t.Fatalf\<close> or \<^verbatim>\<open>t.SkipNow\<close> on the handle it was given (the
  library marks that handle finished and calls \<^verbatim>\<open>runtime.Goexit\<close>). User code that panics
  ends the process and is outside the model.
\<close>

datatype signal = Return | Goexit

text \<open>What a call of \<^verbatim>\<open>Construct\<close> gives: the value and the destruct context, or no return.\<close>

datatype 'v returns = Returns 'v 'v | NoReturn

text \<open>
  A fixtures struct value: the fields that have been set, in the order they were set, each
  with its value.
\<close>

type_synonym 'v fixtures = "(string \<times> 'v) list"

text \<open>
  The trace: one event for each call of user code, with what was passed and how the call
  ended; the start and the end of each \<^verbatim>\<open>t.Run\<close>; each \<^verbatim>\<open>t.Fatalf\<close> of the engine.
\<close>

datatype 'v event =
    EvSetup handle signal
  | EvTeardown handle signal
  | EvBeforeEach handle signal
  | EvAfterEach handle signal
  | EvConstruct handle fixtureInstance "'v fixtures" "'v returns"
  | EvDestruct handle fixtureInstance 'v signal
  | EvMethod string handle "'v fixtures option" signal
  | EvRunStart string
  | EvRunEnd string
  | EvFatalf handle error

text \<open>
  The code of the registered fixtures, by instance, and the assignability relation of
  Go's types (by their \<^verbatim>\<open>String()\<close>) that \<^verbatim>\<open>reflect.Value.Set\<close> checks.
\<close>

record ('v, 's) fixtureCode =
  Construct :: "fixtureInstance \<Rightarrow> handle \<Rightarrow> 'v fixtures \<Rightarrow> 's \<Rightarrow> 'v returns \<times> 's"
  Destruct :: "fixtureInstance \<Rightarrow> handle \<Rightarrow> 'v \<Rightarrow> 's \<Rightarrow> signal \<times> 's"
  AssignableTo :: "string \<Rightarrow> string \<Rightarrow> bool"

text \<open>
  A value of interface \<^verbatim>\<open>GTest\<close>: its dynamic type, its four hooks, and the call of one of
  its methods by name with the parameters after the receiver (\<^verbatim>\<open>tfunc.Call(callParams)\<close>).
\<close>

record ('v, 's) GTest =
  gtType :: itype
  Setup :: "handle \<Rightarrow> 's \<Rightarrow> signal \<times> 's"
  Teardown :: "handle \<Rightarrow> 's \<Rightarrow> signal \<times> 's"
  BeforeEach :: "handle \<Rightarrow> 's \<Rightarrow> signal \<times> 's"
  AfterEach :: "handle \<Rightarrow> 's \<Rightarrow> signal \<times> 's"
  CallMethod :: "string \<Rightarrow> handle \<Rightarrow> 'v fixtures option \<Rightarrow> 's \<Rightarrow> signal \<times> 's"

text \<open>
  A cleanup closure: the variables it captures (\<^verbatim>\<open>t\<close>, \<^verbatim>\<open>fVal\<close>, \<^verbatim>\<open>ctxVal\<close>).
\<close>

record 'v cleanUpCb =
  cbT :: handle
  cbF :: fixtureInstance
  cbCtx :: 'v

text \<open>
  The mutable state of one run: the resolver's map \<^verbatim>\<open>self.Resolved\<close>, the slice
  \<^verbatim>\<open>*cleanUpCbs\<close>, the state of the user code, and the trace.
\<close>

record ('v, 's) state =
  Resolved :: "fixtureInstance \<rightharpoonup> 'v"
  cleanUpCbs :: "'v cleanUpCb list"
  user :: 's
  trace :: "'v event list"

text \<open>
  How a computation on a goroutine stops early: \<^verbatim>\<open>t.Fatalf\<close> of the engine, user code that
  ended the goroutine with a fatal failure on the handle it was given (the handle is kept,
  \<^verbatim>\<open>t.Run\<close> depends on it), or a panic of the reflection library.
\<close>

datatype abort = Fatal error | Exited handle | Panic

definition emit :: "'v event \<Rightarrow> ('v, 's) state \<Rightarrow> ('v, 's) state" where
  "emit e st = st\<lparr>trace := trace st @ [e]\<rparr>"

definition Fatalf :: "handle \<Rightarrow> error \<Rightarrow> ('v, 's) state \<Rightarrow> (abort + 'a) \<times> ('v, 's) state" where
  "Fatalf t err st = (Inl (Fatal err), emit (EvFatalf t err) st)"

subsection \<open>The resolver\<close>

type_synonym ('v, 's) resolution = "((abort + 'v fixtures) \<times> ('v, 's) state) option"

text \<open>
  Lines 191 to 220, the block run when the value is not cached. \<open>rec\<close> is the recursive
  call \<^verbatim>\<open>self.resolve(t, ..., cleanUpCbs)\<close>. \<^verbatim>\<open>MethodByName\<close> without a method, \<^verbatim>\<open>In(2)\<close>
  out of range, \<^verbatim>\<open>Call\<close> with the wrong number of arguments and \<^verbatim>\<open>returns[1]\<close> out of range
  panic; the types of the two arguments fit by the checks of \<open>RegisterFixture\<close>.
\<close>

definition construct_fixture ::
  "(rtype \<Rightarrow> string \<Rightarrow> ('v, 's) state \<Rightarrow> ('v, 's) resolution) \<Rightarrow> ('v, 's) fixtureCode \<Rightarrow>
   handle \<Rightarrow> FixtureEntry \<Rightarrow> ('v, 's) state \<Rightarrow> ((abort + 'v) \<times> ('v, 's) state) option" where
  "construct_fixture rec C t fentry st =
     (let f = Instance fentry; fType = TypeOf f in
      case MethodByName fType ''Construct'' of
        None \<Rightarrow> Some (Inl Panic, st)
      | Some constructMethod \<Rightarrow>
          if NumIn constructMethod < 3 then Some (Inl Panic, st)
          else
            (case rec (In constructMethod 2) (itypeString fType @ ''.Construct'') st of
               None \<Rightarrow> None
             | Some (Inl a, st1) \<Rightarrow> Some (Inl a, st1)
             | Some (Inr depsVal, st1) \<Rightarrow>
                 if NumIn constructMethod \<noteq> 3 then Some (Inl Panic, st1)
                 else
                   (case Construct C f t depsVal (user st1) of
                      (NoReturn, u) \<Rightarrow>
                        Some (Inl (Exited t),
                          emit (EvConstruct t f depsVal NoReturn) (st1\<lparr>user := u\<rparr>))
                    | (Returns valVal ctxVal, u) \<Rightarrow>
                        let st2 = emit (EvConstruct t f depsVal (Returns valVal ctxVal))
                                    (st1\<lparr>user := u\<rparr>) in
                        if NumOut constructMethod < 2 then Some (Inl Panic, st2)
                        else
                          let st3 = st2\<lparr>cleanUpCbs := cleanUpCbs st2 @
                                      [\<lparr>cbT = t, cbF = f, cbCtx = ctxVal\<rparr>]\<rparr> in
                          Some (Inr valVal,
                            if Scope fentry = ScopeSubTest
                            then st3\<lparr>Resolved := (Resolved st3)(f \<mapsto> valVal)\<rparr>
                            else st3))))"

text \<open>The type of the value a fixture's \<^verbatim>\<open>Construct\<close> returns first.\<close>

definition valueType :: "fixtureInstance \<Rightarrow> string option" where
  "valueType f =
     (case MethodByName (TypeOf f) ''Construct'' of
        None \<Rightarrow> None
      | Some constructMethod \<Rightarrow>
          if NumOut constructMethod < 1 then None
          else Some (typeString (Out constructMethod 0)))"

text \<open>
  The body of the loop over the fields, lines 162 to 227. \<^verbatim>\<open>t.Fatalf\<close> does not return, so
  the \<^verbatim>\<open>continue\<close> statements after it are never reached.
\<close>

definition resolve_field ::
  "(rtype \<Rightarrow> string \<Rightarrow> ('v, 's) state \<Rightarrow> ('v, 's) resolution) \<Rightarrow> ('v, 's) fixtureCode \<Rightarrow>
   registry \<Rightarrow> handle \<Rightarrow> string \<Rightarrow> StructField \<Rightarrow> 'v fixtures \<Rightarrow> ('v, 's) state \<Rightarrow>
   ('v, 's) resolution" where
  "resolve_field rec C registeredFixtures t caller field fixturesVal st =
     (case fieldTag field of
        TagInvalid \<Rightarrow> Some (Fatalf t InvalidTagEncountered st)
      | TagNoFixture \<Rightarrow>
          Some (Fatalf t (MissingFixtureTag (fieldName field) (fieldType field) caller) st)
      | TagFixture name \<Rightarrow>
          (case registeredFixtures name of
             None \<Rightarrow> Some (Fatalf t (UnregisteredFixtureFound caller name) st)
           | Some fentry \<Rightarrow>
               let f = Instance fentry;
                   cached = (if Scope fentry = ScopeSubTest then Resolved st f else None)
               in
               (case (case cached of
                        Some valVal \<Rightarrow> Some (Inr valVal, st)
                      | None \<Rightarrow> construct_fixture rec C t fentry st) of
                  None \<Rightarrow> None
                | Some (Inl a, st') \<Rightarrow> Some (Inl a, st')
                | Some (Inr valVal, st') \<Rightarrow>
                    if fieldCanSet field then
                      (case valueType f of
                         None \<Rightarrow> Some (Inl Panic, st')
                       | Some vt \<Rightarrow>
                           if AssignableTo C vt (fieldType field)
                           then Some (Inr (fixturesVal @ [(fieldName field, valVal)]), st')
                           else Some (Inl Panic, st'))
                    else Some (Fatalf t (NotExportedField caller (fieldName field)) st'))))"

text \<open>The loop over the fields, in declaration order.\<close>

fun resolve_fields ::
  "(rtype \<Rightarrow> string \<Rightarrow> ('v, 's) state \<Rightarrow> ('v, 's) resolution) \<Rightarrow> ('v, 's) fixtureCode \<Rightarrow>
   registry \<Rightarrow> handle \<Rightarrow> string \<Rightarrow> StructField list \<Rightarrow> 'v fixtures \<Rightarrow> ('v, 's) state \<Rightarrow>
   ('v, 's) resolution" where
  "resolve_fields rec C registeredFixtures t caller [] fixturesVal st =
     Some (Inr fixturesVal, st)"
| "resolve_fields rec C registeredFixtures t caller (field # rest) fixturesVal st =
     (case resolve_field rec C registeredFixtures t caller field fixturesVal st of
        None \<Rightarrow> None
      | Some (Inl a, st') \<Rightarrow> Some (Inl a, st')
      | Some (Inr fixturesVal', st') \<Rightarrow>
          resolve_fields rec C registeredFixtures t caller rest fixturesVal' st')"

text \<open>
  \<^verbatim>\<open>fixtureResolver.resolve\<close>. A fixture whose dependencies lead back to itself makes the Go
  code recurse without end; the first argument bounds the depth of the recursion, and
  \<open>None\<close> says that the bound was reached.
\<close>

primrec resolve ::
  "nat \<Rightarrow> ('v, 's) fixtureCode \<Rightarrow> registry \<Rightarrow> handle \<Rightarrow> rtype \<Rightarrow> string \<Rightarrow> ('v, 's) state \<Rightarrow>
   ('v, 's) resolution" where
  "resolve 0 C registeredFixtures t fixturesType caller st = None"
| "resolve (Suc n) C registeredFixtures t fixturesType caller st =
     (let kind = typeKind fixturesType in
      if kind \<noteq> Struct then Some (Fatalf t (InvalidFixturesType kind) st)
      else resolve_fields (resolve n C registeredFixtures t) C registeredFixtures t caller
             (typeFields fixturesType) [] st)"

subsection \<open>The orchestrator\<close>

definition HasPrefix :: "string \<Rightarrow> string \<Rightarrow> bool" where
  "HasPrefix s p = (take (length p) s = p)"

definition TrimPrefix :: "string \<Rightarrow> string \<Rightarrow> string" where
  "TrimPrefix s p = (if HasPrefix s p then drop (length p) s else s)"

text \<open>A call of a hook or of a test method with handle \<open>t\<close>, recorded in the trace.\<close>

definition callUser ::
  "(handle \<Rightarrow> 's \<Rightarrow> signal \<times> 's) \<Rightarrow> (handle \<Rightarrow> signal \<Rightarrow> 'v event) \<Rightarrow> handle \<Rightarrow>
   ('v, 's) state \<Rightarrow> signal \<times> ('v, 's) state" where
  "callUser code ev t st =
     (case code t (user st) of (sig, u) \<Rightarrow> (sig, emit (ev t sig) (st\<lparr>user := u\<rparr>)))"

text \<open>
  \<^verbatim>\<open>for _, cb := range cleanUpCbs { cb() }\<close>, each closure being lines 209 to 215: it looks
  \<^verbatim>\<open>Destruct\<close> up and calls it with the captured handle and context.
\<close>

fun runCleanUpCbs ::
  "('v, 's) fixtureCode \<Rightarrow> 'v cleanUpCb list \<Rightarrow> ('v, 's) state \<Rightarrow>
   (abort + unit) \<times> ('v, 's) state" where
  "runCleanUpCbs C [] st = (Inr (), st)"
| "runCleanUpCbs C (cb # cbs) st =
     (case MethodByName (TypeOf (cbF cb)) ''Destruct'' of
        None \<Rightarrow> (Inl Panic, st)
      | Some destructMethod \<Rightarrow>
          if NumIn destructMethod \<noteq> 3 then (Inl Panic, st)
          else
            (case Destruct C (cbF cb) (cbT cb) (cbCtx cb) (user st) of
               (Goexit, u) \<Rightarrow>
                 (Inl (Exited (cbT cb)),
                  emit (EvDestruct (cbT cb) (cbF cb) (cbCtx cb) Goexit) (st\<lparr>user := u\<rparr>))
             | (Return, u) \<Rightarrow>
                 runCleanUpCbs C cbs
                   (emit (EvDestruct (cbT cb) (cbF cb) (cbCtx cb) Return) (st\<lparr>user := u\<rparr>))))"

text \<open>
  The closure passed to \<^verbatim>\<open>t.Run\<close>, lines 281 to 292, with the variables it captures and
  its parameter \<open>t\<close>. \<open>callParams\<close> is \<^verbatim>\<open>callParams[1]\<close> when the method has a second
  parameter; \<^verbatim>\<open>callParams[0]\<close> is \<open>t\<close>.
\<close>

definition subTest ::
  "('v, 's) fixtureCode \<Rightarrow> ('v, 's) GTest \<Rightarrow> string \<Rightarrow> 'v fixtures option \<Rightarrow>
   'v cleanUpCb list \<Rightarrow> handle \<Rightarrow> ('v, 's) state \<Rightarrow> (abort + unit) \<times> ('v, 's) state" where
  "subTest C gt name callParams cbs t st =
     (case callUser (BeforeEach gt) EvBeforeEach t st of
        (Goexit, st1) \<Rightarrow> (Inl (Exited t), st1)
      | (Return, st1) \<Rightarrow>
          (case callUser (\<lambda>t. CallMethod gt name t callParams)
                  (\<lambda>t. EvMethod name t callParams) t st1 of
             (Goexit, st2) \<Rightarrow> (Inl (Exited t), st2)
           | (Return, st2) \<Rightarrow>
               (case runCleanUpCbs C cbs st2 of
                  (Inl a, st3) \<Rightarrow> (Inl a, st3)
                | (Inr u, st3) \<Rightarrow>
                    (case callUser (AfterEach gt) EvAfterEach t st3 of
                       (Goexit, st4) \<Rightarrow> (Inl (Exited t), st4)
                     | (Return, st4) \<Rightarrow> (Inr (), st4)))))"

text \<open>
  \<^verbatim>\<open>t.Run(name, f)\<close> of the testing library, run without a \<^verbatim>\<open>-run\<close> filter or
  \<^verbatim>\<open>-failfast\<close>: \<open>f\<close> runs on a goroutine of its own with a handle of its own, and
  \<^verbatim>\<open>t.Run\<close> waits until \<open>f\<close> has returned or has ended its goroutine. When \<open>f\<close> ended it with
  a fatal failure on its own handle, the sub-test is finished and \<^verbatim>\<open>t.Run\<close> returns to its
  caller. When the failure was reported on the handle \<open>t\<close> of the caller (the cleanup
  closures hold that handle, and every \<^verbatim>\<open>t.Fatalf\<close> of the engine is on it), the sub-test is
  not finished but its parent is: \<^verbatim>\<open>t.Run\<close> then ends the goroutine of the caller too
  (\<^verbatim>\<open>runtime.Goexit\<close> after the signal of \<^verbatim>\<open>tRunner\<close>, "subtest may have called FailNow on
  a parent test"; older releases of Go panic there). A goroutine ended with no handle of
  the chain finished, and a panic, end the process.
\<close>

definition Run ::
  "handle \<Rightarrow> string \<Rightarrow> (handle \<Rightarrow> ('v, 's) state \<Rightarrow> (abort + unit) \<times> ('v, 's) state) \<Rightarrow>
   ('v, 's) state \<Rightarrow> (abort + unit) \<times> ('v, 's) state" where
  "Run t name f st =
     (case f (SubT name) (emit (EvRunStart name) st) of
        (Inr u, st') \<Rightarrow> (Inr (), emit (EvRunEnd name) st')
      | (Inl (Exited h), st') \<Rightarrow>
          if h = SubT name then (Inr (), emit (EvRunEnd name) st')
          else if h = t then (Inl (Exited t), emit (EvRunEnd name) st')
          else (Inl Panic, st')
      | (Inl (Fatal e), st') \<Rightarrow> (Inl (Fatal e), emit (EvRunEnd name) st')
      | (Inl Panic, st') \<Rightarrow> (Inl Panic, st'))"

text \<open>The body of the loop over the methods, lines 242 to 292.\<close>

definition runMethod ::
  "nat \<Rightarrow> ('v, 's) fixtureCode \<Rightarrow> registry \<Rightarrow> ('v, 's) GTest \<Rightarrow> handle \<Rightarrow> Method \<Rightarrow>
   ('v, 's) state \<Rightarrow> ((abort + unit) \<times> ('v, 's) state) option" where
  "runMethod n C registeredFixtures gt t method st0 =
     (let st = st0\<lparr>Resolved := Map.empty, cleanUpCbs := []\<rparr>;
          name = methodName method
      in
      if \<not> HasPrefix name testMethodPrefix then Some (Inr (), st)
      else
        let methodParamCount = NumIn method - 1 in
        if methodParamCount < 1 then Some (Fatalf t (NoParameter name) st)
        else
          let argType = typeString (In method 1) in
          if argType \<noteq> ''*testing.T'' then Some (Fatalf t (FirstParameterNotT name argType) st)
          else
            (case (if methodParamCount = 2 then
                     (case resolve n C registeredFixtures t (In method 2) name st of
                        None \<Rightarrow> None
                      | Some (Inl a, st') \<Rightarrow> Some (Inl a, st')
                      | Some (Inr fixturesVal, st') \<Rightarrow> Some (Inr (Some fixturesVal), st'))
                   else if methodParamCount > 2 then
                     Some (Fatalf t (TooManyParameters name methodParamCount) st)
                   else Some (Inr None, st)) of
               None \<Rightarrow> None
             | Some (Inl a, st') \<Rightarrow> Some (Inl a, st')
             | Some (Inr callParams, st') \<Rightarrow>
                 Some (Run t (TrimPrefix name testMethodPrefix)
                         (subTest C gt name callParams (cleanUpCbs st')) st')))"

text \<open>The loop \<^verbatim>\<open>for i := 0; i < xt.NumMethod(); i++\<close>.\<close>

fun runMethods ::
  "nat \<Rightarrow> ('v, 's) fixtureCode \<Rightarrow> registry \<Rightarrow> ('v, 's) GTest \<Rightarrow> handle \<Rightarrow> Method list \<Rightarrow>
   ('v, 's) state \<Rightarrow> ((abort + unit) \<times> ('v, 's) state) option" where
  "runMethods n C registeredFixtures gt t [] st = Some (Inr (), st)"
| "runMethods n C registeredFixtures gt t (method # methods) st =
     (case runMethod n C registeredFixtures gt t method st of
        None \<Rightarrow> None
      | Some (Inl a, st') \<Rightarrow> Some (Inl a, st')
      | Some (Inr u, st') \<Rightarrow> runMethods n C registeredFixtures gt t methods st')"

text \<open>
  \<^verbatim>\<open>RunSubTests(t, gt)\<close>, from the user state \<open>u0\<close> and an empty trace; \<open>t\<close> is \<open>GroupT\<close>.
  The result is how the goroutine of the group ended and the final state; \<open>n\<close> bounds the
  depth of the resolver's recursion.
\<close>

definition RunSubTests ::
  "nat \<Rightarrow> ('v, 's) fixtureCode \<Rightarrow> registry \<Rightarrow> ('v, 's) GTest \<Rightarrow> 's \<Rightarrow>
   ((abort + unit) \<times> ('v, 's) state) option" where
  "RunSubTests n C registeredFixtures gt u0 =
     (let t = GroupT;
          xt = gtType gt;
          st0 = \<lparr>Resolved = Map.empty, cleanUpCbs = [], user = u0, trace = []\<rparr>
      in
      case callUser (Setup gt) EvSetup t st0 of
        (Goexit, st1) \<Rightarrow> Some (Inl (Exited t), st1)
      | (Return, st1) \<Rightarrow>
          (case runMethods n C registeredFixtures gt t (itypeMethods xt) st1 of
             None \<Rightarrow> None
           | Some (Inl a, st2) \<Rightarrow> Some (Inl a, st2)
           | Some (Inr u, st2) \<Rightarrow>
               (case callUser (Teardown gt) EvTeardown t st2 of
                  (Goexit, st3) \<Rightarrow> Some (Inl (Exited t), st3)
                | (Return, st3) \<Rightarrow> Some (Inr (), st3))))"

subsection \<open>The contract of the specification\<close>

text \<open>
  The shape the specification asks of a fixture, in its words: a construct operation
  accepting exactly an execution handle and a dependency shape and returning exactly a
  value and an opaque context; a destruct operation accepting exactly an execution handle
  and an opaque context (\<open>destruct_accepts\<close>) and returning nothing (\<open>destruct_contract\<close>).
\<close>

definition construct_contract :: "itype \<Rightarrow> bool" where
  "construct_contract T =
     (case MethodByName T ''Construct'' of
        None \<Rightarrow> False
      | Some m \<Rightarrow>
          length (methodIn m) = 2 \<and> length (methodOut m) = 2 \<and>
          typeString (methodIn m ! 0) = ''*testing.T'' \<and> typeKind (methodIn m ! 1) = Struct)"

definition destruct_accepts :: "itype \<Rightarrow> bool" where
  "destruct_accepts T =
     (case MethodByName T ''Destruct'' of
        None \<Rightarrow> False
      | Some m \<Rightarrow>
          length (methodIn m) = 2 \<and> typeString (methodIn m ! 0) = ''*testing.T'' \<and>
          typeString (methodIn m ! 1) = ''interface {}'')"

definition destruct_contract :: "itype \<Rightarrow> bool" where
  "destruct_contract T =
     (destruct_accepts T \<and>
      (case MethodByName T ''Destruct'' of None \<Rightarrow> False | Some m \<Rightarrow> methodOut m = []))"

subsection \<open>Fixtures and test groups in the style of the repository's tests\<close>

definition testingT :: rtype where
  "testingT = \<lparr>typeString = ''*testing.T'', typeKind = Ptr, typeFields = []\<rparr>"

definition emptyInterface :: rtype where
  "emptyInterface = \<lparr>typeString = ''interface {}'', typeKind = Interface, typeFields = []\<rparr>"

definition stringType :: rtype where
  "stringType = \<lparr>typeString = ''string'', typeKind = OtherKind 24, typeFields = []\<rparr>"

definition structOf :: "StructField list \<Rightarrow> rtype" where
  "structOf fs = \<lparr>typeString = ''struct'', typeKind = Struct, typeFields = fs\<rparr>"

text \<open>
  A fixture type with \<^verbatim>\<open>Construct(t *testing.T, fixtures struct{...}) (V, interface{})\<close> and
  \<^verbatim>\<open>Destruct(t *testing.T, ctx interface{})\<close> whose results are \<open>outs\<close>.
\<close>

definition fixtureType :: "string \<Rightarrow> StructField list \<Rightarrow> rtype \<Rightarrow> rtype list \<Rightarrow> itype" where
  "fixtureType tn deps vt outs =
     \<lparr>itypeString = tn,
      itypeMethods =
        [\<lparr>methodName = ''Construct'', methodIn = [testingT, structOf deps],
           methodOut = [vt, emptyInterface]\<rparr>,
         \<lparr>methodName = ''Destruct'', methodIn = [testingT, emptyInterface],
           methodOut = outs\<rparr>]\<rparr>"

definition UserIdFixture :: fixtureInstance where
  "UserIdFixture = \<lparr>instId = 1, instType = fixtureType ''*UserIdFixture'' [] stringType []\<rparr>"

text \<open>
  \<^verbatim>\<open>InvalidFixtureDestructInput\<close> of the tests: \<^verbatim>\<open>Destruct(t string)\<close>.
\<close>

definition InvalidFixtureDestructInput :: fixtureInstance where
  "InvalidFixtureDestructInput =
     \<lparr>instId = 7,
      instType =
        \<lparr>itypeString = ''InvalidFixtureDestructInput'',
         itypeMethods =
           [\<lparr>methodName = ''Construct'', methodIn = [testingT, structOf []],
              methodOut = [stringType, emptyInterface]\<rparr>,
            \<lparr>methodName = ''Destruct'', methodIn = [stringType], methodOut = []\<rparr>]\<rparr>\<rparr>"

text \<open>
  A fixture whose destruct operation returns a value:
  \<^verbatim>\<open>Destruct(t *testing.T, ctx interface{}) string\<close>.
\<close>

definition DestructWithResult :: fixtureInstance where
  "DestructWithResult =
     \<lparr>instId = 8, instType = fixtureType ''DestructWithResult'' [] stringType [stringType]\<rparr>"

text \<open>
  Values: user ids, mock users built from a user id, directories; \<open>Nil\<close> is Go's \<^verbatim>\<open>nil\<close>.
  The user state is a counter (the \<^verbatim>\<open>Count\<close> of \<^verbatim>\<open>UserIdFixture\<close>, shared with the
  directory names) and the names of the test methods that failed.
\<close>

datatype val = Nil | UserId nat | MockUser val | Dir nat

type_synonym world = "nat \<times> string list"

definition fixtureField :: "string \<Rightarrow> string \<Rightarrow> string \<Rightarrow> StructField" where
  "fixtureField n ty tag =
     \<lparr>fieldName = n, fieldType = ty, fieldTag = TagFixture tag, fieldCanSet = True\<rparr>"

text \<open>
  \<^verbatim>\<open>MockUserFixture\<close>: its \<^verbatim>\<open>Construct\<close> takes \<^verbatim>\<open>struct { UserId string `fixture:"UserId"` }\<close>.
\<close>

definition MockUserFixture :: fixtureInstance where
  "MockUserFixture =
     \<lparr>instId = 2,
      instType = fixtureType ''*MockUserFixture'' [fixtureField ''UserId'' ''string'' ''UserId'']
        \<lparr>typeString = ''MockUser'', typeKind = Struct, typeFields = []\<rparr> []\<rparr>"

definition TmpDirFixture :: fixtureInstance where
  "TmpDirFixture = \<lparr>instId = 3, instType = fixtureType ''*TmpDirFixture'' [] stringType []\<rparr>"

definition exConstruct ::
  "fixtureInstance \<Rightarrow> handle \<Rightarrow> val fixtures \<Rightarrow> world \<Rightarrow> val returns \<times> world" where
  "exConstruct f t deps w =
     (if instId f = 1 then (Returns (UserId (fst w + 1)) Nil, (fst w + 1, snd w))
      else if instId f = 2 then
        (Returns (MockUser (case deps of [] \<Rightarrow> Nil | (k, v) # others \<Rightarrow> v)) Nil, w)
      else (Returns (Dir (fst w + 1)) (Dir (fst w + 1)), (fst w + 1, snd w)))"

definition exCode :: "(val, world) fixtureCode" where
  "exCode = \<lparr>Construct = exConstruct, Destruct = (\<lambda>f t c w. (Return, w)),
             AssignableTo = (=)\<rparr>"

text \<open>
  The registry after the \<^verbatim>\<open>init\<close> of the tests, with the directory fixture registered
  under a second name as well.
\<close>

definition exRegistry :: registry where
  "exRegistry =
     [''UserId'' \<mapsto> \<lparr>Scope = ScopeCall, Instance = UserIdFixture\<rparr>,
      ''MockUser'' \<mapsto> \<lparr>Scope = ScopeCall, Instance = MockUserFixture\<rparr>,
      ''TmpDir'' \<mapsto> \<lparr>Scope = ScopeSubTest, Instance = TmpDirFixture\<rparr>,
      ''WorkDir'' \<mapsto> \<lparr>Scope = ScopeSubTest, Instance = TmpDirFixture\<rparr>]"

definition hookMethod :: "string \<Rightarrow> Method" where
  "hookMethod n = \<lparr>methodName = n, methodIn = [testingT], methodOut = []\<rparr>"

definition testMethod :: "string \<Rightarrow> StructField list \<Rightarrow> Method" where
  "testMethod n fs = \<lparr>methodName = n, methodIn = [testingT, structOf fs], methodOut = []\<rparr>"

text \<open>
  A test group with the given test methods between its hooks, in the order of \<^verbatim>\<open>Method(i)\<close>
  (sorted by name). The hooks return; a test method whose name is in \<open>failing\<close> records
  its name and calls \<^verbatim>\<open>t.FailNow()\<close>, the others return.
\<close>

definition groupOf :: "Method list \<Rightarrow> string list \<Rightarrow> (val, world) GTest" where
  "groupOf tests failing =
     \<lparr>gtType = \<lparr>itypeString = ''*GTestTests'', itypeMethods =
         [hookMethod ''AfterEach'', hookMethod ''BeforeEach'', hookMethod ''Setup''] @ tests @
         [hookMethod ''Teardown'']\<rparr>,
      Setup = (\<lambda>t w. (Return, w)),
      Teardown = (\<lambda>t w. (Return, w)),
      BeforeEach = (\<lambda>t w. (Return, w)),
      AfterEach = (\<lambda>t w. (Return, w)),
      CallMethod = (\<lambda>n t args w.
         if n \<in> set failing then (Goexit, (fst w, n # snd w)) else (Return, w))\<rparr>"

definition SubTestNested :: Method where
  "SubTestNested = testMethod ''SubTestNested'' [fixtureField ''User'' ''MockUser'' ''MockUser'']"

definition SubTestFailNow :: Method where
  "SubTestFailNow = testMethod ''SubTestFailNow'' [fixtureField ''Dir'' ''string'' ''TmpDir'']"

definition SubTestMissing :: Method where
  "SubTestMissing = testMethod ''SubTestMissing'' [fixtureField ''X'' ''string'' ''Nope'']"

definition SubTestRunTest :: Method where
  "SubTestRunTest = hookMethod ''SubTestRunTest''"

text \<open>
  A group with two test cases, each with a fixture; the first fails with \<^verbatim>\<open>t.FailNow()\<close>.
\<close>

definition exGroup :: "(val, world) GTest" where
  "exGroup = groupOf [SubTestFailNow, SubTestNested] [''SubTestFailNow'']"

definition st0 :: "(val, world) state" where
  "st0 = \<lparr>Resolved = Map.empty, cleanUpCbs = [], user = (0, []), trace = []\<rparr>"

subsection \<open>Reading the state and the trace\<close>

text \<open>The events added to the trace between two states.\<close>

definition news :: "('v, 's) state \<Rightarrow> ('v, 's) state \<Rightarrow> 'v event list" where
  "news st st' = drop (length (trace st)) (trace st')"

text \<open>The cleanup closures that the constructions of a trace append, in order.\<close>

fun cleanups_from :: "'v event list \<Rightarrow> 'v cleanUpCb list" where
  "cleanups_from [] = []"
| "cleanups_from (EvConstruct h g d (Returns v c) # evs) =
     \<lparr>cbT = h, cbF = g, cbCtx = c\<rparr> # cleanups_from evs"
| "cleanups_from (e # evs) = cleanups_from evs"

text \<open>The events a resolution can add: calls of \<^verbatim>\<open>Construct\<close> and \<^verbatim>\<open>t.Fatalf\<close>, on its handle.\<close>

fun resolver_event :: "handle \<Rightarrow> 'v event \<Rightarrow> bool" where
  "resolver_event t (EvConstruct h g d r) = (h = t)"
| "resolver_event t (EvFatalf h e) = (h = t)"
| "resolver_event t e = False"

fun returned_construct :: "handle \<Rightarrow> 'v event \<Rightarrow> bool" where
  "returned_construct t (EvConstruct h g d (Returns v c)) = (h = t)"
| "returned_construct t e = False"

fun is_construct_of :: "fixtureInstance \<Rightarrow> 'v event \<Rightarrow> bool" where
  "is_construct_of f (EvConstruct h g d r) = (g = f)"
| "is_construct_of f e = False"

text \<open>The event of running a cleanup closure.\<close>

definition destruct_event :: "signal \<Rightarrow> 'v cleanUpCb \<Rightarrow> 'v event" where
  "destruct_event sig cb = EvDestruct (cbT cb) (cbF cb) (cbCtx cb) sig"

text \<open>The dependency shape of a fixture: the fields of the second parameter of \<^verbatim>\<open>Construct\<close>.\<close>

definition construct_shape :: "fixtureInstance \<Rightarrow> StructField list" where
  "construct_shape f =
     (case MethodByName (TypeOf f) ''Construct'' of
        None \<Rightarrow> []
      | Some constructMethod \<Rightarrow> typeFields (In constructMethod 2))"

text \<open>A field refers to instance \<open>f\<close>: its tag names a registered entry whose instance is \<open>f\<close>.\<close>

definition refers :: "registry \<Rightarrow> fixtureInstance \<Rightarrow> StructField \<Rightarrow> bool" where
  "refers reg f field =
     (case fieldTag field of
        TagFixture name \<Rightarrow> (case reg name of None \<Rightarrow> False | Some e \<Rightarrow> Instance e = f)
      | _ \<Rightarrow> False)"

subsection \<open>Successful resolutions as a relation\<close>

text \<open>
  \<open>resolved C reg t fs st vals st'\<close>: the loop over the fields \<open>fs\<close>, started in state \<open>st\<close>,
  sets the fields to \<open>vals\<close> and ends in state \<open>st'\<close>. One rule for the end of the loop, one
  for a field served from the cache, one for a field whose fixture is constructed after
  the resolution of its own dependency shape. The relation is derived from \<open>resolve\<close>
  (lemma \<open>resolve_resolved\<close>); it gives the induction principle for successful runs.
\<close>

inductive resolved ::
  "('v, 's) fixtureCode \<Rightarrow> registry \<Rightarrow> handle \<Rightarrow> StructField list \<Rightarrow> ('v, 's) state \<Rightarrow>
   'v fixtures \<Rightarrow> ('v, 's) state \<Rightarrow> bool"
  for C :: "('v, 's) fixtureCode" and reg :: registry and t :: handle where
  Done: "resolved C reg t [] st [] st"
| Cached:
    "\<lbrakk>fieldTag field = TagFixture name; reg name = Some fentry;
      Scope fentry = ScopeSubTest; Resolved st (Instance fentry) = Some valVal;
      resolved C reg t rest st vals st'\<rbrakk>
     \<Longrightarrow> resolved C reg t (field # rest) st ((fieldName field, valVal) # vals) st'"
| Constructed:
    "\<lbrakk>fieldTag field = TagFixture name; reg name = Some fentry; f = Instance fentry;
      Scope fentry = ScopeSubTest \<longrightarrow> Resolved st f = None;
      resolved C reg t (construct_shape f) st depsVal st1;
      Construct C f t depsVal (user st1) = (Returns valVal ctxVal, u);
      trace st2 = trace st1 @ [EvConstruct t f depsVal (Returns valVal ctxVal)];
      cleanUpCbs st2 = cleanUpCbs st1 @ [\<lparr>cbT = t, cbF = f, cbCtx = ctxVal\<rparr>];
      user st2 = u;
      Resolved st2 = (if Scope fentry = ScopeSubTest then (Resolved st1)(f \<mapsto> valVal)
                      else Resolved st1);
      resolved C reg t rest st2 vals st'\<rbrakk>
     \<Longrightarrow> resolved C reg t (field # rest) st ((fieldName field, valVal) # vals) st'"

subsection \<open>Shapes that can be resolved\<close>

text \<open>
  \<open>resolvable k C reg fs\<close>: every field of \<open>fs\<close> is exported and tagged with the name of a
  registered fixture that passes the checks of \<open>RegisterFixture\<close>, whose value can be
  assigned to the field, and whose own dependency shape is resolvable with \<open>k - 1\<close>; so the
  dependencies below \<open>fs\<close> are at most \<open>k\<close> deep, and free of cycles.
\<close>

primrec resolvable ::
  "nat \<Rightarrow> ('v, 's) fixtureCode \<Rightarrow> registry \<Rightarrow> StructField list \<Rightarrow> bool" where
  "resolvable 0 C reg fs = (fs = [])"
| "resolvable (Suc k) C reg fs =
     list_all (\<lambda>field.
        fieldCanSet field \<and>
        (case fieldTag field of
           TagFixture name \<Rightarrow>
             (case reg name of
                None \<Rightarrow> False
              | Some fentry \<Rightarrow>
                  validateFixtureConstructMethod (TypeOf (Instance fentry)) = None \<and>
                  validateFixtureDestructMethod (TypeOf (Instance fentry)) = None \<and>
                  (case valueType (Instance fentry) of
                     None \<Rightarrow> False
                   | Some vt \<Rightarrow> AssignableTo C vt (fieldType field)) \<and>
                  resolvable k C reg (construct_shape (Instance fentry)))
         | _ \<Rightarrow> False)) fs"

text \<open>No call of \<^verbatim>\<open>Construct\<close> ends the goroutine; no call of \<^verbatim>\<open>Destruct\<close> does.\<close>

definition constructs_return :: "('v, 's) fixtureCode \<Rightarrow> bool" where
  "constructs_return C = (\<forall>f t d u. fst (Construct C f t d u) \<noteq> NoReturn)"

definition destructs_return :: "('v, 's) fixtureCode \<Rightarrow> bool" where
  "destructs_return C = (\<forall>f t c u. fst (Destruct C f t c u) = Return)"

text \<open>\<open>grows t st st'\<close>: from \<open>st\<close> to \<open>st'\<close> the trace gained events of a resolution only.\<close>

definition grows :: "handle \<Rightarrow> ('v, 's) state \<Rightarrow> ('v, 's) state \<Rightarrow> bool" where
  "grows t st st' = (\<exists>evs. trace st' = trace st @ evs \<and> list_all (resolver_event t) evs)"

text \<open>
  The events of a sub-unit with handle \<open>h\<close>: the hooks and the method receive \<open>h\<close>; the
  cleanup closures call \<^verbatim>\<open>Destruct\<close> with the handle \<open>t\<close> they captured in \<open>resolve\<close>.
\<close>

fun subtest_event :: "handle \<Rightarrow> handle \<Rightarrow> 'v event \<Rightarrow> bool" where
  "subtest_event t h (EvBeforeEach h' s) = (h' = h)"
| "subtest_event t h (EvMethod m h' a s) = (h' = h)"
| "subtest_event t h (EvDestruct h' f c s) = (h' = t)"
| "subtest_event t h (EvAfterEach h' s) = (h' = h)"
| "subtest_event t h e = False"

text \<open>The state at the head of the loop body: a new resolver and an empty cleanup list.\<close>

definition reset :: "('v, 's) state \<Rightarrow> ('v, 's) state" where
  "reset st = st\<lparr>Resolved := Map.empty, cleanUpCbs := []\<rparr>"



text \<open>
  The invariant of the registry: every registered instance passed the two checks of
  \<open>RegisterFixture\<close>.
\<close>

definition registry_valid :: "registry \<Rightarrow> bool" where
  "registry_valid reg =
     (\<forall>fentry\<in>ran reg.
        validateFixtureConstructMethod (TypeOf (Instance fentry)) = None \<and>
        validateFixtureDestructMethod (TypeOf (Instance fentry)) = None)"

text \<open>The instance a construction event is about is registered.\<close>

fun registered_event :: "registry \<Rightarrow> 'v event \<Rightarrow> bool" where
  "registered_event reg (EvConstruct h g d r) = (g \<in> Instance ` ran reg)"
| "registered_event reg e = True"

subsection \<open>Reading the trace of a group\<close>

text \<open>The names of the sub-units started, in order.\<close>

fun started :: "'v event list \<Rightarrow> string list" where
  "started [] = []"
| "started (EvRunStart n # evs) = n # started evs"
| "started (e # evs) = started evs"

text \<open>The test methods called, in order, each with the handle it received.\<close>

fun called :: "'v event list \<Rightarrow> (string \<times> handle) list" where
  "called [] = []"
| "called (EvMethod m h a s # evs) = (m, h) # called evs"
| "called (e # evs) = called evs"

fun is_group_hook :: "'v event \<Rightarrow> bool" where
  "is_group_hook (EvSetup h s) = True"
| "is_group_hook (EvTeardown h s) = True"
| "is_group_hook e = False"

fun is_teardown :: "'v event \<Rightarrow> bool" where
  "is_teardown (EvTeardown h s) = True"
| "is_teardown e = False"

text \<open>The test cases of a method list: the methods the naming convention selects.\<close>

definition test_cases :: "Method list \<Rightarrow> Method list" where
  "test_cases ms = filter (\<lambda>m. HasPrefix (methodName m) testMethodPrefix) ms"

text \<open>The name of the sub-unit of a test case.\<close>

definition subtest_name :: "Method \<Rightarrow> string" where
  "subtest_name m = TrimPrefix (methodName m) testMethodPrefix"

text \<open>
  A test method with a well-formed signature whose dependency shape, when it has one, is
  resolvable.
\<close>

definition runnable :: "nat \<Rightarrow> ('v, 's) fixtureCode \<Rightarrow> registry \<Rightarrow> Method \<Rightarrow> bool" where
  "runnable k C reg m =
     (typeString (In m 1) = ''*testing.T'' \<and>
      (length (methodIn m) = 1 \<or>
       length (methodIn m) = 2 \<and> typeKind (In m 2) = Struct \<and>
       resolvable k C reg (typeFields (In m 2))))"

text \<open>What of the result of a run can be observed: how it ended, the user state, the trace.\<close>

definition observe ::
  "((abort + unit) \<times> ('v, 's) state) option \<Rightarrow> ((abort + unit) \<times> 's \<times> 'v event list) option" where
  "observe x = map_option (\<lambda>p. (fst p, user (snd p), trace (snd p))) x"


subsection \<open>Dependencies in the trace\<close>

text \<open>The call of \<^verbatim>\<open>Construct\<close> on instance \<open>g\<close> that returned the value \<open>v\<close>.\<close>

fun constructed_value :: "fixtureInstance \<Rightarrow> 'v \<Rightarrow> 'v event \<Rightarrow> bool" where
  "constructed_value g v (EvConstruct h g' d (Returns v' c)) = (g' = g \<and> v' = v)"
| "constructed_value g v e = False"

text \<open>
  \<open>supplied reg seen fs vals\<close>: for every field of \<open>fs\<close> tagged with a registered name, \<open>vals\<close>
  holds under the name of the field a value that a construction among \<open>seen\<close> returned
  for the instance registered under the tag.
\<close>

definition supplied ::
  "registry \<Rightarrow> 'v event list \<Rightarrow> StructField list \<Rightarrow> 'v fixtures \<Rightarrow> bool" where
  "supplied reg seen fs vals =
     list_all (\<lambda>field.
        case fieldTag field of
          TagFixture name \<Rightarrow>
            (case reg name of
               None \<Rightarrow> True
             | Some fentry \<Rightarrow>
                 list_ex (\<lambda>nv. fst nv = fieldName field \<and>
                    list_ex (constructed_value (Instance fentry) (snd nv)) seen) vals)
        | _ \<Rightarrow> True) fs"

text \<open>
  Every construction of a trace received, for each field of its dependency shape, a value
  constructed before it (\<open>seen\<close>: the events before the trace).
\<close>

fun deps_first :: "registry \<Rightarrow> 'v event list \<Rightarrow> 'v event list \<Rightarrow> bool" where
  "deps_first reg seen [] = True"
| "deps_first reg seen (EvConstruct h g d r # evs) =
     (supplied reg seen (construct_shape g) d \<and>
      deps_first reg (seen @ [EvConstruct h g d r]) evs)"
| "deps_first reg seen (e # evs) = deps_first reg (seen @ [e]) evs"

subsection \<open>Counting references and constructions\<close>

text \<open>
  A field refers to instance \<open>f\<close> through an entry whose scope is not \<^verbatim>\<open>"subtest"\<close>: the
  cache is not consulted for it.
\<close>

definition call_ref :: "registry \<Rightarrow> fixtureInstance \<Rightarrow> StructField \<Rightarrow> bool" where
  "call_ref reg f field =
     (case fieldTag field of
        TagFixture name \<Rightarrow>
          (case reg name of
             None \<Rightarrow> False
           | Some fentry \<Rightarrow> Instance fentry = f \<and> Scope fentry \<noteq> ScopeSubTest)
      | _ \<Rightarrow> False)"

text \<open>
  The event is the call of \<^verbatim>\<open>Construct\<close> on \<open>f\<close> whose first result was set to the field: the
  pair of the field and its entry in the list of values.
\<close>

fun constructs_for ::
  "handle \<Rightarrow> fixtureInstance \<Rightarrow> StructField \<times> string \<times> 'v \<Rightarrow> 'v event \<Rightarrow> bool" where
  "constructs_for t f (field, n, v) (EvConstruct h g d (Returns v' c)) =
     (h = t \<and> g = f \<and> n = fieldName field \<and> v' = v)"
| "constructs_for t f p e = False"

text \<open>
  The number of references to \<open>f\<close> in the dependency shapes of the fixtures constructed in a
  trace.
\<close>

fun nested_refs :: "registry \<Rightarrow> fixtureInstance \<Rightarrow> 'v event list \<Rightarrow> nat" where
  "nested_refs reg f [] = 0"
| "nested_refs reg f (EvConstruct h g d r # evs) =
     length (filter (refers reg f) (construct_shape g)) + nested_refs reg f evs"
| "nested_refs reg f (e # evs) = nested_refs reg f evs"

text \<open>Every name bound to \<open>f\<close> is registered with a scope other than \<^verbatim>\<open>"subtest"\<close>.\<close>

definition only_call :: "registry \<Rightarrow> fixtureInstance \<Rightarrow> bool" where
  "only_call reg f = (\<forall>name fentry. reg name = Some fentry \<longrightarrow> Instance fentry = f \<longrightarrow>
                        Scope fentry \<noteq> ScopeSubTest)"

text \<open>\<^verbatim>\<open>SubTestCallScopedStringFixture\<close> of the tests: three fields tagged \<^verbatim>\<open>UserId\<close>.\<close>

definition SubTestCallScopedStringFixture :: Method where
  "SubTestCallScopedStringFixture = testMethod ''SubTestCallScopedStringFixture''
     [fixtureField ''UserId1'' ''string'' ''UserId'', fixtureField ''UserId2'' ''string'' ''UserId'',
      fixtureField ''UserId3'' ''string'' ''UserId'']"

subsection \<open>Sharing of cached values\<close>

text \<open>Every name bound to \<open>f\<close> is registered with scope \<^verbatim>\<open>"subtest"\<close>.\<close>

definition only_subtest :: "registry \<Rightarrow> fixtureInstance \<Rightarrow> bool" where
  "only_subtest reg f = (\<forall>name fentry. reg name = Some fentry \<longrightarrow> Instance fentry = f \<longrightarrow>
                           Scope fentry = ScopeSubTest)"

text \<open>
  The list \<open>vals\<close> holds one entry for each field of \<open>fs\<close>, in order and under the name of
  the field, and every field that refers to \<open>f\<close> was set to \<open>v\<close>.
\<close>

definition wired ::
  "registry \<Rightarrow> fixtureInstance \<Rightarrow> 'v \<Rightarrow> StructField list \<Rightarrow> 'v fixtures \<Rightarrow> bool" where
  "wired reg f v fs vals =
     list_all2 (\<lambda>field nv. fst nv = fieldName field \<and> (refers reg f field \<longrightarrow> snd nv = v))
       fs vals"

text \<open>
  In every construction of a trace, the fields of the dependency shape that refer to \<open>f\<close>
  were set to \<open>v\<close>.
\<close>

fun deps_wired :: "registry \<Rightarrow> fixtureInstance \<Rightarrow> 'v \<Rightarrow> 'v event list \<Rightarrow> bool" where
  "deps_wired reg f v [] = True"
| "deps_wired reg f v (EvConstruct h g d r # evs) =
     (wired reg f v (construct_shape g) d \<and> deps_wired reg f v evs)"
| "deps_wired reg f v (e # evs) = deps_wired reg f v evs"

text \<open>Every construction of a trace received one value for each field of its shape.\<close>

fun deps_named :: "'v event list \<Rightarrow> bool" where
  "deps_named [] = True"
| "deps_named (EvConstruct h g d r # evs) =
     (map fst d = map fieldName (construct_shape g) \<and> deps_named evs)"
| "deps_named (e # evs) = deps_named evs"

text \<open>
  The cache entry of \<open>f\<close> and the events \<open>E\<close> since the resolver was made agree: without an
  entry, \<open>f\<close> was not constructed and nothing constructed refers to it; with the entry
  \<open>v\<close>, one construction of \<open>f\<close> took place, it returned \<open>v\<close>, and every reference to \<open>f\<close>
  received \<open>v\<close>.
\<close>

definition cache_inv ::
  "registry \<Rightarrow> fixtureInstance \<Rightarrow> 'v event list \<Rightarrow> ('v, 's) state \<Rightarrow> bool" where
  "cache_inv reg f E st =
     (deps_named E \<and>
      (Resolved st f = None \<longrightarrow>
         \<not> list_ex (is_construct_of f) E \<and> nested_refs reg f E = 0) \<and>
      (\<forall>v. Resolved st f = Some v \<longrightarrow>
         (\<exists>h d c. filter (is_construct_of f) E = [EvConstruct h f d (Returns v c)]) \<and>
         deps_wired reg f v E))"

text \<open>
  A test case in the manner of \<^verbatim>\<open>SubTestSubTestScopedFixture\<close> of the tests, whose second
  field names the directory fixture by its second name.
\<close>

definition SubTestTwoNames :: Method where
  "SubTestTwoNames = testMethod ''SubTestTwoNames''
     [fixtureField ''Dir1'' ''string'' ''TmpDir'', fixtureField ''Dir2'' ''string'' ''WorkDir'',
      fixtureField ''Dir3'' ''string'' ''TmpDir'']"


text \<open>
  The registry after one more registration: the directory fixture, registered with sub-test
  scope as \<^verbatim>\<open>TmpDir\<close>, under a third name with call scope. And a test case that uses both
  names.
\<close>

definition exRegistryMixed :: registry where
  "exRegistryMixed = snd (RegisterFixture exRegistry ''FreshDir'' TmpDirFixture ScopeCall)"

definition SubTestMixedNames :: Method where
  "SubTestMixedNames = testMethod ''SubTestMixedNames''
     [fixtureField ''Dir1'' ''string'' ''TmpDir'', fixtureField ''Dir2'' ''string'' ''FreshDir'',
      fixtureField ''Dir3'' ''string'' ''TmpDir'']"

subsection \<open>The order of the calls in a sub-unit\<close>




subsection \<open>Fixture code that fails\<close>

text \<open>
  The code of the examples with a \<^verbatim>\<open>Construct\<close> that reports a fatal failure on its handle
  (\<^verbatim>\<open>t.Fatal\<close>), and with a \<^verbatim>\<open>Destruct\<close> that does. And a group of two test cases, both
  returning: one with a fixture and one without.
\<close>

definition exCodeConstructFails :: "(val, world) fixtureCode" where
  "exCodeConstructFails = exCode\<lparr>Construct := (\<lambda>f t deps w. (NoReturn, w))\<rparr>"

definition exCodeDestructFails :: "(val, world) fixtureCode" where
  "exCodeDestructFails = exCode\<lparr>Destruct := (\<lambda>f t c w. (Goexit, w))\<rparr>"

definition exGroupTwo :: "(val, world) GTest" where
  "exGroupTwo = groupOf [SubTestNested, SubTestRunTest] []"
section \<open>The resolver: what every run adds to the trace\<close>

lemma cleanups_from_append [simp]:
  "cleanups_from (xs @ ys) = cleanups_from xs @ cleanups_from ys"
  by (induction xs rule: cleanups_from.induct) auto

lemma news_self [simp]: "news st st = []"
  by (simp add: news_def)

lemma news_eq: "trace st' = trace st @ evs \<Longrightarrow> news st st' = evs"
  by (simp add: news_def)

lemma grows_refl [simp]: "grows t st st"
  by (simp add: grows_def)

lemma grows_trans: "grows t st st1 \<Longrightarrow> grows t st1 st2 \<Longrightarrow> grows t st st2"
  by (auto simp: grows_def)

lemma grows_emit_Fatalf: "grows t st st1 \<Longrightarrow> grows t st (emit (EvFatalf t e) st1)"
  by (auto simp: grows_def emit_def)

lemma construct_fixture_grows:
  assumes rec: "\<And>ty c s r s'. rec ty c s = Some (r, s') \<Longrightarrow> grows t s s'"
    and "construct_fixture rec C t fentry st = Some (r, st')"
  shows "grows t st st'"
  using assms(2)
  by (auto simp: construct_fixture_def Let_def emit_def grows_def
      split: option.splits if_splits sum.splits prod.splits returns.splits
      dest!: rec)

lemma resolve_field_disj:
  assumes "resolve_field rec C reg t caller field fv st = Some (r, st')"
  shows "(\<exists>e. r = Inl (Fatal e) \<and> st' = emit (EvFatalf t e) st) \<or> st' = st \<or>
     (\<exists>fentry r1 st1. construct_fixture rec C t fentry st = Some (r1, st1) \<and>
        (st' = st1 \<or> (\<exists>e. st' = emit (EvFatalf t e) st1)))"
  using assms
  by (fastforce simp: resolve_field_def Let_def Fatalf_def
      split: FieldTag.splits option.splits if_splits sum.splits prod.splits)

lemma resolve_field_grows:
  assumes rec: "\<And>ty c s r s'. rec ty c s = Some (r, s') \<Longrightarrow> grows t s s'"
    and "resolve_field rec C reg t caller field fv st = Some (r, st')"
  shows "grows t st st'"
  using resolve_field_disj[OF assms(2)] construct_fixture_grows[OF rec]
  by (auto simp: grows_emit_Fatalf)

lemma resolve_fields_grows:
  assumes rec: "\<And>ty c s r s'. rec ty c s = Some (r, s') \<Longrightarrow> grows t s s'"
  shows "resolve_fields rec C reg t caller fs fv st = Some (r, st') \<Longrightarrow> grows t st st'"
proof (induction fs arbitrary: fv st)
  case Nil
  then show ?case by simp
next
  case (Cons field rest)
  from Cons.prems obtain r1 st1 where
    step: "resolve_field rec C reg t caller field fv st = Some (r1, st1)"
    by (auto split: option.splits)
  note g1 = resolve_field_grows[OF rec step]
  show ?case
  proof (cases r1)
    case (Inl a)
    with Cons.prems step g1 show ?thesis by simp
  next
    case (Inr fv1)
    with Cons.prems step have "resolve_fields rec C reg t caller rest fv1 st1 = Some (r, st')"
      by simp
    from Cons.IH[OF this] g1 show ?thesis by (rule grows_trans[rotated])
  qed
qed

lemma resolve_grows:
  "resolve n C reg t ty caller st = Some (r, st') \<Longrightarrow> grows t st st'"
proof (induction n arbitrary: ty caller st r st')
  case 0
  then show ?case by simp
next
  case (Suc n)
  show ?case
  proof (cases "typeKind ty = Struct")
    case True
    with Suc.prems have
      "resolve_fields (resolve n C reg t) C reg t caller (typeFields ty) [] st = Some (r, st')"
      by (simp add: Let_def)
    then show ?thesis by (rule resolve_fields_grows[rotated]) (rule Suc.IH)
  next
    case False
    with Suc.prems show ?thesis
      by (auto simp: Let_def Fatalf_def grows_emit_Fatalf)
  qed
qed

section \<open>The resolver: successful runs\<close>

lemma construct_fixture_Inr:
  assumes "construct_fixture rec C t fentry st = Some (Inr valVal, st')"
  obtains m depsVal st1 ctxVal u where
    "MethodByName (TypeOf (Instance fentry)) ''Construct'' = Some m"
    "rec (In m 2) (itypeString (TypeOf (Instance fentry)) @ ''.Construct'') st =
       Some (Inr depsVal, st1)"
    "Construct C (Instance fentry) t depsVal (user st1) = (Returns valVal ctxVal, u)"
    "trace st' = trace st1 @ [EvConstruct t (Instance fentry) depsVal (Returns valVal ctxVal)]"
    "cleanUpCbs st' = cleanUpCbs st1 @ [\<lparr>cbT = t, cbF = Instance fentry, cbCtx = ctxVal\<rparr>]"
    "user st' = u"
    "Resolved st' =
       (if Scope fentry = ScopeSubTest then (Resolved st1)(Instance fentry \<mapsto> valVal)
        else Resolved st1)"
  using assms
  by (auto simp: construct_fixture_def Let_def emit_def
      split: option.splits if_splits sum.splits prod.splits returns.splits)

lemma resolve_field_Inr:
  assumes "resolve_field rec C reg t caller field fixturesVal st = Some (Inr fixturesVal', st')"
  obtains name fentry valVal where
    "fieldTag field = TagFixture name" "reg name = Some fentry" "fieldCanSet field"
    "fixturesVal' = fixturesVal @ [(fieldName field, valVal)]"
    "(Scope fentry = ScopeSubTest \<and> Resolved st (Instance fentry) = Some valVal \<and> st' = st) \<or>
     ((Scope fentry = ScopeSubTest \<longrightarrow> Resolved st (Instance fentry) = None) \<and>
      construct_fixture rec C t fentry st = Some (Inr valVal, st'))"
  using assms
  by (auto simp: resolve_field_def Let_def Fatalf_def
      split: FieldTag.splits option.splits if_splits sum.splits prod.splits)

lemma resolve_fields_resolved:
  assumes rec: "\<And>ty c s r s'. rec ty c s = Some (Inr r, s') \<Longrightarrow>
                  resolved C reg t (typeFields ty) s r s'"
  shows "resolve_fields rec C reg t caller fs fv st = Some (Inr fv', st') \<Longrightarrow>
         \<exists>vals. fv' = fv @ vals \<and> resolved C reg t fs st vals st'"
proof (induction fs arbitrary: fv st)
  case Nil
  then show ?case by (auto intro: resolved.Done)
next
  case (Cons field rest)
  from Cons.prems obtain fv1 st1 where
    step: "resolve_field rec C reg t caller field fv st = Some (Inr fv1, st1)"
    and more: "resolve_fields rec C reg t caller rest fv1 st1 = Some (Inr fv', st')"
    by (auto split: option.splits sum.splits)
  from Cons.IH[OF more] obtain vals where
    vals: "fv' = fv1 @ vals" "resolved C reg t rest st1 vals st'" by blast
  from step show ?case
  proof (cases rule: resolve_field_Inr)
    case (1 name fentry valVal)
    from 1(5) show ?thesis
    proof
      assume "Scope fentry = ScopeSubTest \<and> Resolved st (Instance fentry) = Some valVal \<and>
        st1 = st"
      with 1 vals show ?thesis
        by (auto intro!: resolved.Cached)
    next
      assume c: "(Scope fentry = ScopeSubTest \<longrightarrow> Resolved st (Instance fentry) = None) \<and>
        construct_fixture rec C t fentry st = Some (Inr valVal, st1)"
      then have cf: "construct_fixture rec C t fentry st = Some (Inr valVal, st1)" by simp
      from cf show ?thesis
      proof (cases rule: construct_fixture_Inr)
        case (1 m depsVal s1 ctxVal u)
        from rec[OF 1(2)] 1(1)
        have "resolved C reg t (construct_shape (Instance fentry)) st depsVal s1"
          by (simp add: construct_shape_def)
        with c 1 \<open>fieldTag field = TagFixture name\<close> \<open>reg name = Some fentry\<close> vals
          \<open>fv1 = fv @ [(fieldName field, valVal)]\<close>
        show ?thesis
          by (auto intro!: resolved.Constructed[where fentry = fentry and ?st1.0 = s1
                and ?st2.0 = st1])
      qed
    qed
  qed
qed

lemma resolve_resolved:
  "resolve n C reg t ty caller st = Some (Inr vals, st') \<Longrightarrow>
   typeKind ty = Struct \<and> resolved C reg t (typeFields ty) st vals st'"
proof (induction n arbitrary: ty caller st vals st')
  case 0
  then show ?case by simp
next
  case (Suc n)
  from Suc.prems have k: "typeKind ty = Struct"
    by (auto simp: Let_def Fatalf_def split: if_splits)
  with Suc.prems have
    "resolve_fields (resolve n C reg t) C reg t caller (typeFields ty) [] st =
       Some (Inr vals, st')"
    by (simp add: Let_def)
  from resolve_fields_resolved[OF _ this] Suc.IH k show ?case by fastforce
qed

lemma resolved_ext:
  "resolved C reg t fs st vals st' \<Longrightarrow>
   \<exists>evs. trace st' = trace st @ evs \<and> cleanUpCbs st' = cleanUpCbs st @ cleanups_from evs \<and>
     list_all (returned_construct t) evs"
proof (induction rule: resolved.induct)
  case (Done st)
  then show ?case by simp
next
  case (Cached field name fentry st valVal rest vals st')
  then show ?case by simp
next
  case (Constructed field name fentry f st depsVal st1 valVal ctxVal u st2 rest vals st')
  from Constructed.IH obtain e1 e2 where
    e1: "trace st1 = trace st @ e1" "cleanUpCbs st1 = cleanUpCbs st @ cleanups_from e1"
      "list_all (returned_construct t) e1" and
    e2: "trace st' = trace st2 @ e2" "cleanUpCbs st' = cleanUpCbs st2 @ cleanups_from e2"
      "list_all (returned_construct t) e2" by blast
  let ?ev = "EvConstruct t f depsVal (Returns valVal ctxVal)"
  have "trace st' = trace st @ (e1 @ ?ev # e2)"
    using e1 e2 Constructed.hyps by simp
  moreover have "cleanUpCbs st' = cleanUpCbs st @ cleanups_from (e1 @ ?ev # e2)"
    using e1 e2 Constructed.hyps by simp
  moreover have "list_all (returned_construct t) (e1 @ ?ev # e2)"
    using e1 e2 by simp
  ultimately show ?case by blast
qed

lemma resolved_trace:
  assumes "resolved C reg t fs st vals st'"
  shows "trace st' = trace st @ news st st'"
    and "cleanUpCbs st' = cleanUpCbs st @ cleanups_from (news st st')"
    and "list_all (returned_construct t) (news st st')"
  using resolved_ext[OF assms] by (auto simp: news_def)

lemma Constructed_news:
  assumes "resolved C reg t sh st d st1" and "trace st2 = trace st1 @ [ev]"
    and "resolved C reg t rest st2 vals st'"
  shows "news st st' = news st st1 @ ev # news st2 st'"
proof -
  from resolved_ext[OF assms(1)] obtain e1 where e1: "trace st1 = trace st @ e1" by blast
  from resolved_ext[OF assms(3)] obtain e2 where e2: "trace st' = trace st2 @ e2" by blast
  have "trace st' = trace st @ (e1 @ ev # e2)" using e1 e2 assms(2) by simp
  from news_eq[OF this] news_eq[OF e1] news_eq[OF e2] show ?thesis by simp
qed

lemma resolved_names:
  "resolved C reg t fs st vals st' \<Longrightarrow> map fst vals = map fieldName fs"
  by (induction rule: resolved.induct) auto

lemma resolved_mono:
  "resolved C reg t fs st vals st' \<Longrightarrow> Resolved st g = Some v \<Longrightarrow> Resolved st' g = Some v"
proof (induction rule: resolved.induct)
  case (Constructed field name fentry f st depsVal st1 valVal ctxVal u st2 rest vals st')
  from Constructed.prems Constructed.IH have 1: "Resolved st1 g = Some v" by simp
  have "Resolved st2 g = Some v"
  proof (cases "g = f \<and> Scope fentry = ScopeSubTest")
    case True
    with Constructed.hyps Constructed.prems show ?thesis by simp
  next
    case False
    with Constructed.hyps 1 show ?thesis by auto
  qed
  with Constructed.IH show ?case by simp
qed auto

text \<open>The cache changes at an instance only when that instance is constructed.\<close>

lemma resolved_cache_change:
  "resolved C reg t fs st vals st' \<Longrightarrow> Resolved st' g \<noteq> Resolved st g \<Longrightarrow>
   list_ex (is_construct_of g) (news st st')"
proof (induction rule: resolved.induct)
  case (Constructed field name fentry f st depsVal st1 valVal ctxVal u st2 rest vals st')
  note n = Constructed_news[OF Constructed.hyps(5) Constructed.hyps(7) Constructed.hyps(11)]
  consider "Resolved st1 g \<noteq> Resolved st g" | "Resolved st2 g \<noteq> Resolved st1 g"
    | "Resolved st' g \<noteq> Resolved st2 g"
    using Constructed.prems by metis
  then show ?case
  proof cases
    case 1
    with Constructed.IH(1) n show ?thesis by simp
  next
    case 2
    with Constructed.hyps have "g = f" by (auto split: if_splits)
    with n show ?thesis by simp
  next
    case 3
    with Constructed.IH(2) n show ?thesis by simp
  qed
qed auto

section \<open>The orchestrator\<close>

lemma runCleanUpCbs_trace:
  "runCleanUpCbs C cbs st = (r, st') \<Longrightarrow>
   (r = Inr () \<and> trace st' = trace st @ map (destruct_event Return) cbs) \<or>
   (\<exists>pre cb post. cbs = pre @ cb # post \<and>
      ((r = Inl (Exited (cbT cb)) \<and>
        trace st' = trace st @ map (destruct_event Return) pre @ [destruct_event Goexit cb]) \<or>
       (r = Inl Panic \<and> trace st' = trace st @ map (destruct_event Return) pre)))"
proof (induction cbs arbitrary: st)
  case Nil
  then show ?case by simp
next
  case (Cons cb cbs)
  show ?case
  proof (cases "MethodByName (TypeOf (cbF cb)) ''Destruct''")
    case None
    with Cons.prems have "r = Inl Panic" "trace st' = trace st" by auto
    then show ?thesis by (intro disjI2 exI[of _ "[]"] exI[of _ cb] exI[of _ cbs]) simp
  next
    case (Some m)
    show ?thesis
    proof (cases "NumIn m \<noteq> 3")
      case True
      with Some Cons.prems have "r = Inl Panic" "trace st' = trace st" by auto
      then show ?thesis by (intro disjI2 exI[of _ "[]"] exI[of _ cb] exI[of _ cbs]) simp
    next
      case False
      obtain sig u where d: "Destruct C (cbF cb) (cbT cb) (cbCtx cb) (user st) = (sig, u)"
        by (cases "Destruct C (cbF cb) (cbT cb) (cbCtx cb) (user st)")
      show ?thesis
      proof (cases sig)
        case Goexit
        with Some False d Cons.prems have "r = Inl (Exited (cbT cb))"
          "trace st' = trace st @ [destruct_event Goexit cb]"
          by (auto simp: emit_def destruct_event_def)
        then show ?thesis by (intro disjI2 exI[of _ "[]"] exI[of _ cb] exI[of _ cbs]) simp
      next
        case Return
        let ?st1 = "emit (EvDestruct (cbT cb) (cbF cb) (cbCtx cb) Return) (st\<lparr>user := u\<rparr>)"
        from Return Some False d Cons.prems have rn: "runCleanUpCbs C cbs ?st1 = (r, st')"
          by simp
        have t1: "trace ?st1 = trace st @ [destruct_event Return cb]"
          by (simp add: emit_def destruct_event_def)
        from Cons.IH[OF rn] show ?thesis
        proof (elim disjE exE conjE)
          assume "r = Inr ()" "trace st' = trace ?st1 @ map (destruct_event Return) cbs"
          with t1 show ?thesis by simp
        next
          fix pre c post
          assume "cbs = pre @ c # post" "r = Inl (Exited (cbT c))"
            "trace st' = trace ?st1 @ map (destruct_event Return) pre @ [destruct_event Goexit c]"
          with t1 show ?thesis
            by (intro disjI2 exI[of _ "cb # pre"] exI[of _ c] exI[of _ post]) simp
        next
          fix pre c post
          assume "cbs = pre @ c # post" "r = Inl Panic"
            "trace st' = trace ?st1 @ map (destruct_event Return) pre"
          with t1 show ?thesis
            by (intro disjI2 exI[of _ "cb # pre"] exI[of _ c] exI[of _ post]) simp
        qed
      qed
    qed
  qed
qed

lemma runCleanUpCbs_returns:
  assumes "destructs_return C"
    and "\<forall>cb\<in>set cbs. validateFixtureDestructMethod (TypeOf (cbF cb)) = None"
  shows "\<exists>st'. runCleanUpCbs C cbs st = (Inr (), st') \<and>
           trace st' = trace st @ map (destruct_event Return) cbs"
  using assms(2)
proof (induction cbs arbitrary: st)
  case Nil
  then show ?case by simp
next
  case (Cons cb cbs)
  from Cons.prems obtain m where m: "MethodByName (TypeOf (cbF cb)) ''Destruct'' = Some m"
    "NumIn m = 3"
    by (auto simp: validateFixtureDestructMethod_def Let_def split: option.splits if_splits)
  obtain sig u where d: "Destruct C (cbF cb) (cbT cb) (cbCtx cb) (user st) = (sig, u)"
    by (cases "Destruct C (cbF cb) (cbT cb) (cbCtx cb) (user st)")
  with assms(1) have "sig = Return" by (metis destructs_return_def fst_conv)
  let ?st1 = "emit (EvDestruct (cbT cb) (cbF cb) (cbCtx cb) Return) (st\<lparr>user := u\<rparr>)"
  from Cons.IH[of ?st1] Cons.prems obtain st' where
    "runCleanUpCbs C cbs ?st1 = (Inr (), st')"
    "trace st' = trace ?st1 @ map (destruct_event Return) cbs" by auto
  with m d \<open>sig = Return\<close> show ?case
    by (auto simp: emit_def destruct_event_def)
qed


lemma callUser_trace:
  "callUser code ev h st = (sig, st') \<Longrightarrow> trace st' = trace st @ [ev h sig]"
  by (auto simp: callUser_def emit_def split: prod.splits)

text \<open>What one sub-unit adds to the trace, case by case.\<close>

lemma subTest_trace:
  assumes "subTest C gt name args cbs h st = (r, st')"
  shows
   "(r = Inl (Exited h) \<and> trace st' = trace st @ [EvBeforeEach h Goexit]) \<or>
    (r = Inl (Exited h) \<and>
       trace st' = trace st @ [EvBeforeEach h Return, EvMethod name h args Goexit]) \<or>
    (\<exists>st2 rc st3. trace st2 = trace st @ [EvBeforeEach h Return, EvMethod name h args Return] \<and>
       runCleanUpCbs C cbs st2 = (rc, st3) \<and>
       ((\<exists>a. rc = Inl a \<and> r = Inl a \<and> st' = st3) \<or>
        (rc = Inr () \<and> (\<exists>sig. trace st' = trace st3 @ [EvAfterEach h sig] \<and>
            r = (if sig = Goexit then Inl (Exited h) else Inr ())))))"
proof -
  obtain s1 st1 where b: "callUser (BeforeEach gt) EvBeforeEach h st = (s1, st1)"
    by (cases "callUser (BeforeEach gt) EvBeforeEach h st")
  note tb = callUser_trace[OF b]
  show ?thesis
  proof (cases s1)
    case Goexit
    with b assms tb show ?thesis by (simp add: subTest_def)
  next
    case Return
    obtain s2 st2 where m: "callUser (\<lambda>t. CallMethod gt name t args)
        (\<lambda>t. EvMethod name t args) h st1 = (s2, st2)"
      by (cases "callUser (\<lambda>t. CallMethod gt name t args) (\<lambda>t. EvMethod name t args) h st1")
    note tm = callUser_trace[OF m]
    show ?thesis
    proof (cases s2)
      case Goexit
      with Return b m assms tb tm show ?thesis by (simp add: subTest_def)
    next
      case R2: Return
      obtain rc st3 where c: "runCleanUpCbs C cbs st2 = (rc, st3)"
        by (cases "runCleanUpCbs C cbs st2")
      have t2: "trace st2 = trace st @ [EvBeforeEach h Return, EvMethod name h args Return]"
        using tb tm Return R2 by simp
      show ?thesis
      proof (cases rc)
        case (Inl a)
        with Return R2 b m c assms have "r = Inl a" "st' = st3" by (auto simp: subTest_def)
        with t2 c Inl show ?thesis by blast
      next
        case (Inr x)
        obtain s4 st4 where a: "callUser (AfterEach gt) EvAfterEach h st3 = (s4, st4)"
          by (cases "callUser (AfterEach gt) EvAfterEach h st3")
        note ta = callUser_trace[OF a]
        from Inr Return R2 b m c a assms have "st' = st4"
          "r = (if s4 = Goexit then Inl (Exited h) else Inr ())"
          by (auto simp: subTest_def split: signal.splits)
        with t2 c Inr ta show ?thesis by auto
      qed
    qed
  qed
qed


lemma reset_simps [simp]:
  "trace (reset st) = trace st" "user (reset st) = user st"
  "Resolved (reset st) = Map.empty" "cleanUpCbs (reset st) = []"
  by (simp_all add: reset_def)

lemma Run_eq:
  assumes "f (SubT nm) (emit (EvRunStart nm) st) = (r1, st2)"
  shows "Run t nm f st =
    (if r1 = Inl Panic \<or> (\<exists>h. r1 = Inl (Exited h) \<and> h \<noteq> SubT nm \<and> h \<noteq> t)
     then (Inl Panic, st2)
     else (if r1 = Inr () \<or> r1 = Inl (Exited (SubT nm)) then Inr () else r1,
           emit (EvRunEnd nm) st2))"
  using assms by (auto simp: Run_def split: sum.splits abort.splits)

text \<open>How \<^verbatim>\<open>t.Run\<close> ends, from how its closure ended.\<close>

lemma Run_cases:
  assumes "f (SubT nm) (emit (EvRunStart nm) st) = (r1, st2)" and "Run t nm f st = (r, st')"
  shows "(r = Inl Panic \<and> st' = st2 \<and>
        (r1 = Inl Panic \<or> (\<exists>h. r1 = Inl (Exited h) \<and> h \<noteq> SubT nm \<and> h \<noteq> t))) \<or>
     (r = Inr () \<and> (r1 = Inr () \<or> r1 = Inl (Exited (SubT nm))) \<and>
        st' = emit (EvRunEnd nm) st2) \<or>
     (r = r1 \<and> r \<noteq> Inr () \<and> r \<noteq> Inl Panic \<and> st' = emit (EvRunEnd nm) st2)"
  using assms(2) unfolding Run_eq[where f = f, OF assms(1)]
  by (auto split: if_splits)

lemma runMethod_prefixed:
  assumes "HasPrefix (methodName m) testMethodPrefix"
  shows "runMethod n C reg gt t m st =
    (if length (methodIn m) < 1 then Some (Fatalf t (NoParameter (methodName m)) (reset st))
     else if typeString (In m 1) \<noteq> ''*testing.T''
       then Some (Fatalf t (FirstParameterNotT (methodName m) (typeString (In m 1))) (reset st))
     else if length (methodIn m) > 2
       then Some (Fatalf t (TooManyParameters (methodName m) (length (methodIn m))) (reset st))
     else if length (methodIn m) = 2 then
       (case resolve n C reg t (In m 2) (methodName m) (reset st) of
          None \<Rightarrow> None
        | Some (Inl a, st') \<Rightarrow> Some (Inl a, st')
        | Some (Inr vals, st') \<Rightarrow>
            Some (Run t (TrimPrefix (methodName m) testMethodPrefix)
                    (subTest C gt (methodName m) (Some vals) (cleanUpCbs st')) st'))
     else Some (Run t (TrimPrefix (methodName m) testMethodPrefix)
                    (subTest C gt (methodName m) None []) (reset st)))"
  using assms
  by (auto simp: runMethod_def Let_def NumIn_def reset_def Fatalf_def
      split: option.splits sum.splits prod.splits)

lemma runMethod_disj:
  assumes "runMethod n C reg gt t m st = Some (r, st')"
  shows
   "(\<not> HasPrefix (methodName m) testMethodPrefix \<and> r = Inr () \<and> st' = reset st) \<or>
    (HasPrefix (methodName m) testMethodPrefix \<and>
      ((\<exists>e. MalformedTestSignature e \<and> r = Inl (Fatal e) \<and>
            st' = emit (EvFatalf t e) (reset st)) \<or>
       (\<exists>a. length (methodIn m) = 2 \<and> typeString (In m 1) = ''*testing.T'' \<and> r = Inl a \<and>
            resolve n C reg t (In m 2) (methodName m) (reset st) = Some (Inl a, st')) \<or>
       (\<exists>args st1 r1 st2. typeString (In m 1) = ''*testing.T'' \<and>
            ((length (methodIn m) = 1 \<and> args = None \<and> st1 = reset st) \<or>
             (length (methodIn m) = 2 \<and> (\<exists>vals. args = Some vals \<and>
                resolve n C reg t (In m 2) (methodName m) (reset st) = Some (Inr vals, st1)))) \<and>
            subTest C gt (methodName m) args (cleanUpCbs st1)
              (SubT (TrimPrefix (methodName m) testMethodPrefix))
              (emit (EvRunStart (TrimPrefix (methodName m) testMethodPrefix)) st1) = (r1, st2) \<and>
            ((r = Inl Panic \<and> st' = st2 \<and>
              (r1 = Inl Panic \<or>
               (\<exists>h. r1 = Inl (Exited h) \<and>
                  h \<noteq> SubT (TrimPrefix (methodName m) testMethodPrefix) \<and> h \<noteq> t))) \<or>
             (r = Inr () \<and>
              (r1 = Inr () \<or>
               r1 = Inl (Exited (SubT (TrimPrefix (methodName m) testMethodPrefix)))) \<and>
              st' = emit (EvRunEnd (TrimPrefix (methodName m) testMethodPrefix)) st2) \<or>
             (r = r1 \<and> r \<noteq> Inr () \<and> r \<noteq> Inl Panic \<and>
              st' = emit (EvRunEnd (TrimPrefix (methodName m) testMethodPrefix)) st2)))))"
proof (cases "HasPrefix (methodName m) testMethodPrefix")
  case False
  with assms show ?thesis by (simp add: runMethod_def Let_def reset_def)
next
  case True
  let ?nm = "TrimPrefix (methodName m) testMethodPrefix"
  let ?st = "reset st"
  note rm = runMethod_prefixed[OF True, of n C reg gt t st]
  consider (none) "length (methodIn m) < 1"
    | (notT) "length (methodIn m) \<ge> 1" "typeString (In m 1) \<noteq> ''*testing.T''"
    | (many) "length (methodIn m) > 2" "typeString (In m 1) = ''*testing.T''"
    | (one) "length (methodIn m) = 1" "typeString (In m 1) = ''*testing.T''"
    | (two) "length (methodIn m) = 2" "typeString (In m 1) = ''*testing.T''"
    by linarith
  then show ?thesis
  proof cases
    case none
    with assms rm have "r = Inl (Fatal (NoParameter (methodName m)))"
      "st' = emit (EvFatalf t (NoParameter (methodName m))) ?st"
      by (simp_all add: Fatalf_def)
    with True show ?thesis
      by (intro disjI2 conjI disjI1 exI[of _ "NoParameter (methodName m)"]) simp_all
  next
    case notT
    let ?e = "FirstParameterNotT (methodName m) (typeString (In m 1))"
    from notT have "methodIn m \<noteq> []" by auto
    with notT assms rm have "r = Inl (Fatal ?e)" "st' = emit (EvFatalf t ?e) ?st"
      by (simp_all add: Fatalf_def)
    with True show ?thesis by (intro disjI2 conjI disjI1 exI[of _ ?e]) simp_all
  next
    case many
    let ?e = "TooManyParameters (methodName m) (length (methodIn m))"
    from many have "methodIn m \<noteq> []" by auto
    with many assms rm have "r = Inl (Fatal ?e)" "st' = emit (EvFatalf t ?e) ?st"
      by (simp_all add: Fatalf_def)
    with True show ?thesis by (intro disjI2 conjI disjI1 exI[of _ ?e]) simp_all
  next
    case one
    obtain r1 st2 where s: "subTest C gt (methodName m) None (cleanUpCbs ?st) (SubT ?nm)
        (emit (EvRunStart ?nm) ?st) = (r1, st2)"
      by (cases "subTest C gt (methodName m) None (cleanUpCbs ?st) (SubT ?nm)
        (emit (EvRunStart ?nm) ?st)")
    from one have "methodIn m \<noteq> []" by auto
    with one assms rm have
      "Run t ?nm (subTest C gt (methodName m) None (cleanUpCbs ?st)) ?st = (r, st')"
      by simp
    from Run_cases[where f = "subTest C gt (methodName m) None (cleanUpCbs ?st)", OF s this]
    have "(r = Inl Panic \<and> st' = st2 \<and>
        (r1 = Inl Panic \<or> (\<exists>h. r1 = Inl (Exited h) \<and> h \<noteq> SubT ?nm \<and> h \<noteq> t))) \<or>
       (r = Inr () \<and> (r1 = Inr () \<or> r1 = Inl (Exited (SubT ?nm))) \<and>
        st' = emit (EvRunEnd ?nm) st2) \<or>
       (r = r1 \<and> r \<noteq> Inr () \<and> r \<noteq> Inl Panic \<and> st' = emit (EvRunEnd ?nm) st2)" .
    with True one s show ?thesis by blast
  next
    case two
    from two have ne: "methodIn m \<noteq> []" by auto
    with two assms rm obtain rr st1 where
      rs: "resolve n C reg t (In m 2) (methodName m) ?st = Some (rr, st1)"
      by (auto split: option.splits)
    show ?thesis
    proof (cases rr)
      case (Inl a)
      with rs two ne assms rm have "r = Inl a" "st' = st1"
        by simp_all
      with True two rs Inl show ?thesis by blast
    next
      case (Inr vals)
      obtain r1 st2 where s: "subTest C gt (methodName m) (Some vals) (cleanUpCbs st1)
          (SubT ?nm) (emit (EvRunStart ?nm) st1) = (r1, st2)"
        by (cases "subTest C gt (methodName m) (Some vals) (cleanUpCbs st1) (SubT ?nm)
          (emit (EvRunStart ?nm) st1)")
      from Inr rs two ne assms rm have
        "Run t ?nm (subTest C gt (methodName m) (Some vals) (cleanUpCbs st1)) st1 = (r, st')"
        by simp
      from Run_cases[where f = "subTest C gt (methodName m) (Some vals) (cleanUpCbs st1)",
          OF s this]
      have "(r = Inl Panic \<and> st' = st2 \<and>
          (r1 = Inl Panic \<or> (\<exists>h. r1 = Inl (Exited h) \<and> h \<noteq> SubT ?nm \<and> h \<noteq> t))) \<or>
         (r = Inr () \<and> (r1 = Inr () \<or> r1 = Inl (Exited (SubT ?nm))) \<and>
          st' = emit (EvRunEnd ?nm) st2) \<or>
         (r = r1 \<and> r \<noteq> Inr () \<and> r \<noteq> Inl Panic \<and> st' = emit (EvRunEnd ?nm) st2)" .
      with True two s rs Inr show ?thesis by blast
    qed
  qed
qed

lemma cleanups_from_handle:
  "list_all (returned_construct t) evs \<Longrightarrow> \<forall>cb\<in>set (cleanups_from evs). cbT cb = t"
  by (induction evs rule: cleanups_from.induct) auto

lemma returned_construct_resolver_event:
  "list_all (returned_construct t) evs \<Longrightarrow> list_all (resolver_event t) evs"
proof (induction evs)
  case (Cons e evs)
  then show ?case by (cases "(t, e)" rule: returned_construct.cases) auto
qed simp

lemma destruct_events_subtest:
  "\<forall>cb\<in>set cbs. cbT cb = t \<Longrightarrow> list_all (subtest_event t h) (map (destruct_event s) cbs)"
  by (induction cbs) (auto simp: destruct_event_def)

lemma runCleanUpCbs_events:
  assumes "runCleanUpCbs C cbs st = (r, st')" and "\<forall>cb\<in>set cbs. cbT cb = t"
  shows "\<exists>ds. trace st' = trace st @ ds \<and> list_all (subtest_event t h) ds"
proof -
  have sub: "list_all (subtest_event t h) (map (destruct_event s) pre)"
    if "set pre \<subseteq> set cbs" for pre s
    using that assms(2) by (intro destruct_events_subtest) auto
  from runCleanUpCbs_trace[OF assms(1)] show ?thesis
  proof (elim disjE exE conjE)
    assume "trace st' = trace st @ map (destruct_event Return) cbs"
    with sub[of cbs Return] show ?thesis by blast
  next
    fix pre cb post
    assume c: "cbs = pre @ cb # post"
      and t: "trace st' = trace st @ map (destruct_event Return) pre @ [destruct_event Goexit cb]"
    from c have "set pre \<subseteq> set cbs" "set [cb] \<subseteq> set cbs" by auto
    from sub[OF this(1), of Return] sub[OF this(2), of Goexit]
    have "list_all (subtest_event t h)
        (map (destruct_event Return) pre @ [destruct_event Goexit cb])"
      by simp
    with t show ?thesis by blast
  next
    fix pre cb post
    assume c: "cbs = pre @ cb # post"
      and t: "trace st' = trace st @ map (destruct_event Return) pre"
    from c have "set pre \<subseteq> set cbs" by auto
    from sub[OF this, of Return] t show ?thesis by blast
  qed
qed

text \<open>What a sub-unit adds to the trace is a beforeEach followed by events of the sub-unit.\<close>

lemma subTest_inside:
  assumes "subTest C gt name args cbs h st = (r, st')" and "\<forall>cb\<in>set cbs. cbT cb = t"
  shows "\<exists>s inner. trace st' = trace st @ EvBeforeEach h s # inner \<and>
           list_all (subtest_event t h) inner"
proof -
  from subTest_trace[OF assms(1)] show ?thesis
  proof (elim disjE exE conjE)
    fix st2 rc st3 a
    assume t2: "trace st2 = trace st @ [EvBeforeEach h Return, EvMethod name h args Return]"
      and rc: "runCleanUpCbs C cbs st2 = (rc, st3)" and "st' = st3"
    from runCleanUpCbs_events[OF rc assms(2)] obtain ds where
      "trace st3 = trace st2 @ ds" "list_all (subtest_event t h) ds" by blast
    with t2 \<open>st' = st3\<close> show ?thesis
      by (intro exI[of _ Return] exI[of _ "EvMethod name h args Return # ds"]) simp
  next
    fix st2 rc st3 sig
    assume t2: "trace st2 = trace st @ [EvBeforeEach h Return, EvMethod name h args Return]"
      and rc: "runCleanUpCbs C cbs st2 = (rc, st3)"
      and t': "trace st' = trace st3 @ [EvAfterEach h sig]"
    from runCleanUpCbs_events[OF rc assms(2)] obtain ds where
      "trace st3 = trace st2 @ ds" "list_all (subtest_event t h) ds" by blast
    with t2 t' show ?thesis
      by (intro exI[of _ Return]
            exI[of _ "EvMethod name h args Return # ds @ [EvAfterEach h sig]"]) simp
  qed auto
qed

section \<open>Resolvable shapes are resolved\<close>

lemma resolvable_field:
  assumes "resolvable (Suc k) C reg (field # rest)"
  obtains name fentry m vt where
    "fieldTag field = TagFixture name" "reg name = Some fentry" "fieldCanSet field"
    "MethodByName (TypeOf (Instance fentry)) ''Construct'' = Some m"
    "NumIn m = 3" "NumOut m = 2" "typeKind (In m 2) = Struct"
    "validateFixtureDestructMethod (TypeOf (Instance fentry)) = None"
    "valueType (Instance fentry) = Some vt" "AssignableTo C vt (fieldType field)"
    "resolvable k C reg (typeFields (In m 2))"
    "resolvable (Suc k) C reg rest"
  using assms
  by (auto simp: validateFixtureConstructMethod_def construct_shape_def Let_def
      split: FieldTag.splits option.splits if_splits)

lemma construct_fixture_total:
  assumes rec: "\<And>s. \<exists>vals s'. rec (In m 2) (itypeString (TypeOf (Instance fentry)) @ ''.Construct'') s =
      Some (Inr vals, s')"
    and m: "MethodByName (TypeOf (Instance fentry)) ''Construct'' = Some m" "NumIn m = 3"
      "NumOut m = 2"
    and cr: "constructs_return C"
  shows "\<exists>v st'. construct_fixture rec C t fentry st = Some (Inr v, st')"
proof -
  from rec[of st] obtain vals s1 where
    r: "rec (In m 2) (itypeString (TypeOf (Instance fentry)) @ ''.Construct'') st =
      Some (Inr vals, s1)" by blast
  obtain res u where c: "Construct C (Instance fentry) t vals (user s1) = (res, u)"
    by (cases "Construct C (Instance fentry) t vals (user s1)")
  with cr have "res \<noteq> NoReturn" by (metis constructs_return_def fst_conv)
  then obtain v ctx where "res = Returns v ctx" by (cases res) auto
  with r c m show ?thesis
    by (simp add: construct_fixture_def Let_def)
qed

lemma resolve_fields_total:
  assumes rec: "\<And>ty c s. typeKind ty = Struct \<Longrightarrow> resolvable k C reg (typeFields ty) \<Longrightarrow>
      \<exists>vals s'. rec ty c s = Some (Inr vals, s')"
    and cr: "constructs_return C"
  shows "resolvable (Suc k) C reg fs \<Longrightarrow>
         \<exists>vals st'. resolve_fields rec C reg t caller fs fv st = Some (Inr vals, st')"
proof (induction fs arbitrary: fv st)
  case Nil
  then show ?case by simp
next
  case (Cons field rest)
  from Cons.prems show ?case
  proof (cases rule: resolvable_field)
    case (1 name fentry m vt)
    let ?f = "Instance fentry"
    have "\<exists>fv1 st1. resolve_field rec C reg t caller field fv st = Some (Inr fv1, st1)"
    proof (cases "Scope fentry = ScopeSubTest \<and> Resolved st ?f \<noteq> None")
      case True
      with 1 show ?thesis by (auto simp: resolve_field_def Let_def)
    next
      case False
      have "\<exists>v st'. construct_fixture rec C t fentry st = Some (Inr v, st')"
        by (rule construct_fixture_total[OF _ 1(4,5,6) cr]) (rule rec[OF 1(7) 1(11)])
      then obtain v st1 where "construct_fixture rec C t fentry st = Some (Inr v, st1)"
        by blast
      with False 1 show ?thesis by (auto simp: resolve_field_def Let_def)
    qed
    then obtain fv1 st1 where
      "resolve_field rec C reg t caller field fv st = Some (Inr fv1, st1)" by blast
    with Cons.IH[OF 1(12), of fv1 st1] show ?thesis by simp
  qed
qed

lemma resolve_total:
  assumes "constructs_return C"
  shows "typeKind ty = Struct \<Longrightarrow> resolvable k C reg (typeFields ty) \<Longrightarrow>
         \<exists>vals st'. resolve (Suc k) C reg t ty caller st = Some (Inr vals, st')"
proof (induction k arbitrary: ty caller st)
  case 0
  then show ?case by (simp add: Let_def)
next
  case (Suc k)
  have "\<exists>vals st'. resolve_fields (resolve (Suc k) C reg t) C reg t caller (typeFields ty) [] st =
      Some (Inr vals, st')"
    by (rule resolve_fields_total[OF _ assms Suc.prems(2)]) (rule Suc.IH)
  with Suc.prems(1) show ?case by (simp add: Let_def)
qed

lemma resolved_registered:
  "resolved C reg t fs st vals st' \<Longrightarrow> list_all (registered_event reg) (news st st')"
proof (induction rule: resolved.induct)
  case (Constructed field name fentry f st depsVal st1 valVal ctxVal u st2 rest vals st')
  note n = Constructed_news[OF Constructed.hyps(5) Constructed.hyps(7) Constructed.hyps(11)]
  from Constructed.hyps(2,3) have "f \<in> Instance ` ran reg"
    by (auto simp: ran_def intro!: image_eqI[where x = fentry])
  with n Constructed.IH show ?case by simp
qed auto

lemma cleanups_from_registered:
  "list_all (registered_event reg) evs \<Longrightarrow> \<forall>cb\<in>set (cleanups_from evs). cbF cb \<in> Instance ` ran reg"
  by (induction evs rule: cleanups_from.induct) auto

lemma method_not_resolver_event:
  "list_all (resolver_event t) evs \<Longrightarrow> EvMethod n h a s \<notin> set evs"
  by (induction evs) auto

text \<open>
  One iteration of the loop over the methods either adds events of the resolver only (the
  method is skipped, or the iteration ends in a fatal error), or resolves the fixtures and
  runs the sub-unit.
\<close>

lemma runMethod_cases:
  assumes "runMethod n C reg gt t m st = Some (r, st')"
  obtains
    (skipped) "\<not> HasPrefix (methodName m) testMethodPrefix" "r = Inr ()" "trace st' = trace st"
      "user st' = user st"
  | (aborted) a evs where "HasPrefix (methodName m) testMethodPrefix" "r = Inl a"
      "trace st' = trace st @ evs" "list_all (resolver_event t) evs"
  | (ran) a cons st1 r1 st2 where "HasPrefix (methodName m) testMethodPrefix"
      "list_all (returned_construct t) cons" "list_all (registered_event reg) cons"
      "trace st1 = trace st @ cons" "cleanUpCbs st1 = cleanups_from cons"
      "subTest C gt (methodName m) a (cleanups_from cons)
         (SubT (TrimPrefix (methodName m) testMethodPrefix))
         (emit (EvRunStart (TrimPrefix (methodName m) testMethodPrefix)) st1) = (r1, st2)"
      "(r = Inl Panic \<and> st' = st2 \<and>
        (r1 = Inl Panic \<or>
         (\<exists>h. r1 = Inl (Exited h) \<and>
            h \<noteq> SubT (TrimPrefix (methodName m) testMethodPrefix) \<and> h \<noteq> t))) \<or>
       (r = Inr () \<and>
        (r1 = Inr () \<or>
         r1 = Inl (Exited (SubT (TrimPrefix (methodName m) testMethodPrefix)))) \<and>
        st' = emit (EvRunEnd (TrimPrefix (methodName m) testMethodPrefix)) st2) \<or>
       (r = r1 \<and> r \<noteq> Inr () \<and> r \<noteq> Inl Panic \<and>
        st' = emit (EvRunEnd (TrimPrefix (methodName m) testMethodPrefix)) st2)"
      "length (methodIn m) = 2 \<longrightarrow>
       (\<exists>vals. resolved C reg t (typeFields (In m 2)) (reset st) vals st1)"
proof -
  let ?nm = "TrimPrefix (methodName m) testMethodPrefix"
  from runMethod_disj[OF assms] consider
    (a) "\<not> HasPrefix (methodName m) testMethodPrefix" "r = Inr ()" "st' = reset st"
  | (b) e where "HasPrefix (methodName m) testMethodPrefix" "r = Inl (Fatal e)"
      "st' = emit (EvFatalf t e) (reset st)"
  | (c) a where "HasPrefix (methodName m) testMethodPrefix" "r = Inl a"
      "resolve n C reg t (In m 2) (methodName m) (reset st) = Some (Inl a, st')"
  | (d) args st1 r1 st2 where "HasPrefix (methodName m) testMethodPrefix"
      "(length (methodIn m) = 1 \<and> args = None \<and> st1 = reset st) \<or>
       (\<exists>vals. args = Some vals \<and>
          resolve n C reg t (In m 2) (methodName m) (reset st) = Some (Inr vals, st1))"
      "subTest C gt (methodName m) args (cleanUpCbs st1) (SubT ?nm)
         (emit (EvRunStart ?nm) st1) = (r1, st2)"
      "(r = Inl Panic \<and> st' = st2 \<and>
        (r1 = Inl Panic \<or> (\<exists>h. r1 = Inl (Exited h) \<and> h \<noteq> SubT ?nm \<and> h \<noteq> t))) \<or>
       (r = Inr () \<and> (r1 = Inr () \<or> r1 = Inl (Exited (SubT ?nm))) \<and>
        st' = emit (EvRunEnd ?nm) st2) \<or>
       (r = r1 \<and> r \<noteq> Inr () \<and> r \<noteq> Inl Panic \<and> st' = emit (EvRunEnd ?nm) st2)"
    by blast
  then show ?thesis
  proof cases
    case a
    then show ?thesis by (intro skipped) simp_all
  next
    case (b e)
    then show ?thesis by (intro aborted[of "Fatal e" "[EvFatalf t e]"]) (simp_all add: emit_def)
  next
    case (c a)
    from resolve_grows[OF c(3)] c(1,2) show ?thesis
      by (auto simp: grows_def intro: aborted)
  next
    case (d args st1 r1 st2)
    have "\<exists>cons. list_all (returned_construct t) cons \<and> list_all (registered_event reg) cons \<and>
        trace st1 = trace st @ cons \<and> cleanUpCbs st1 = cleanups_from cons \<and>
        (length (methodIn m) = 2 \<longrightarrow>
         (\<exists>vals. resolved C reg t (typeFields (In m 2)) (reset st) vals st1))"
      using d(2)
    proof
      assume "length (methodIn m) = 1 \<and> args = None \<and> st1 = reset st"
      then show ?thesis by (intro exI[of _ "[]"]) simp
    next
      assume "\<exists>vals. args = Some vals \<and>
        resolve n C reg t (In m 2) (methodName m) (reset st) = Some (Inr vals, st1)"
      then obtain vals where
        "resolve n C reg t (In m 2) (methodName m) (reset st) = Some (Inr vals, st1)" by blast
      from resolve_resolved[OF this] have
        rs: "resolved C reg t (typeFields (In m 2)) (reset st) vals st1" by simp
      from resolved_trace[OF rs] resolved_registered[OF rs] rs show ?thesis
        by (intro exI[of _ "news (reset st) st1"]) auto
    qed
    then obtain cons where cons: "list_all (returned_construct t) cons"
      "list_all (registered_event reg) cons" "trace st1 = trace st @ cons"
      "cleanUpCbs st1 = cleanups_from cons"
      "length (methodIn m) = 2 \<longrightarrow>
       (\<exists>vals. resolved C reg t (typeFields (In m 2)) (reset st) vals st1)" by blast
    with d show ?thesis by (intro ran[of cons st1 args r1 st2]) simp_all
  qed
qed

section \<open>The example fixtures\<close>

lemma example_fixtures_valid:
  "validateFixtureConstructMethod (TypeOf UserIdFixture) = None"
  "validateFixtureDestructMethod (TypeOf UserIdFixture) = None"
  "validateFixtureConstructMethod (TypeOf MockUserFixture) = None"
  "validateFixtureDestructMethod (TypeOf MockUserFixture) = None"
  "validateFixtureConstructMethod (TypeOf TmpDirFixture) = None"
  "validateFixtureDestructMethod (TypeOf TmpDirFixture) = None"
  by code_simp+

lemma exRegistry_ran:
  "fentry \<in> ran exRegistry \<Longrightarrow>
   Instance fentry = UserIdFixture \<or> Instance fentry = MockUserFixture \<or>
   Instance fentry = TmpDirFixture"
  unfolding ran_def exRegistry_def
  by (auto split: if_splits)

lemma exRegistry_valid: "registry_valid exRegistry"
  unfolding registry_valid_def
  using exRegistry_ran example_fixtures_valid by metis

lemma exCode_destructs_return: "destructs_return exCode"
  by (simp add: destructs_return_def exCode_def)

lemma exCode_constructs_return: "constructs_return exCode"
  by (simp add: constructs_return_def exCode_def exConstruct_def)

section \<open>The loop over the methods\<close>

lemma started_append [simp]: "started (xs @ ys) = started xs @ started ys"
  by (induction xs rule: started.induct) auto

lemma called_append [simp]: "called (xs @ ys) = called xs @ called ys"
  by (induction xs rule: called.induct) auto

lemma resolver_events_quiet:
  "list_all (resolver_event t) evs \<Longrightarrow>
   started evs = [] \<and> called evs = [] \<and> \<not> list_ex is_group_hook evs"
proof (induction evs)
  case (Cons e evs)
  then show ?case by (cases e) auto
qed simp

lemma subtest_events_quiet:
  "list_all (subtest_event t h) evs \<Longrightarrow> started evs = [] \<and> \<not> list_ex is_group_hook evs"
proof (induction evs)
  case (Cons e evs)
  then show ?case by (cases e) auto
qed simp

lemma test_cases_simps [simp]:
  "test_cases [] = []"
  "test_cases (m # ms) =
     (if HasPrefix (methodName m) testMethodPrefix then m # test_cases ms else test_cases ms)"
  "test_cases (xs @ ys) = test_cases xs @ test_cases ys"
  by (simp_all add: test_cases_def)

text \<open>What one iteration of the loop adds to the trace.\<close>

lemma runMethod_summary:
  assumes "runMethod n C reg gt t m st = Some (r, st')"
  shows "trace st' = trace st @ news st st'"
    and "\<not> list_ex is_group_hook (news st st')"
    and "prefix (started (news st st')) (map subtest_name (test_cases [m]))"
    and "r = Inr () \<Longrightarrow> started (news st st') = map subtest_name (test_cases [m])"
proof -
  let ?nm = "TrimPrefix (methodName m) testMethodPrefix"
  have "trace st' = trace st @ news st st' \<and> \<not> list_ex is_group_hook (news st st') \<and>
    prefix (started (news st st')) (map subtest_name (test_cases [m])) \<and>
    (r = Inr () \<longrightarrow> started (news st st') = map subtest_name (test_cases [m]))"
    using assms
  proof (cases rule: runMethod_cases)
    case skipped
    then show ?thesis by (simp add: news_def)
  next
    case (aborted a evs)
    from news_eq[OF aborted(3)] resolver_events_quiet[OF aborted(4)] aborted(2,3)
    show ?thesis by simp
  next
    case (ran a cons st1 r1 st2)
    from subTest_inside[OF ran(6) cleanups_from_handle[OF ran(2)]] obtain s inner where
      inner: "trace st2 = trace st1 @ EvRunStart ?nm # EvBeforeEach (SubT ?nm) s # inner"
      "list_all (subtest_event t (SubT ?nm)) inner"
      by (auto simp: emit_def)
    note q1 = resolver_events_quiet[OF returned_construct_resolver_event[OF ran(2)]]
    note q2 = subtest_events_quiet[OF inner(2)]
    from ran(7) consider (panic) "r = Inl Panic" "st' = st2"
      | (ended) "st' = emit (EvRunEnd ?nm) st2" by blast
    then show ?thesis
    proof cases
      case panic
      with inner(1) ran(4) have "trace st' = trace st @ cons @
          EvRunStart ?nm # EvBeforeEach (SubT ?nm) s # inner" "r \<noteq> Inr ()" by simp_all
      from news_eq[OF this(1)] this q1 q2 ran(1) show ?thesis
        by (simp add: subtest_name_def)
    next
      case ended
      with inner(1) ran(4) have "trace st' = trace st @ cons @
          EvRunStart ?nm # EvBeforeEach (SubT ?nm) s # inner @ [EvRunEnd ?nm]"
        by (simp add: emit_def)
      from news_eq[OF this] this q1 q2 ran(1) show ?thesis
        by (simp add: subtest_name_def)
    qed
  qed
  then show "trace st' = trace st @ news st st'"
    and "\<not> list_ex is_group_hook (news st st')"
    and "prefix (started (news st st')) (map subtest_name (test_cases [m]))"
    and "r = Inr () \<Longrightarrow> started (news st st') = map subtest_name (test_cases [m])"
    by simp_all
qed

lemma news_append:
  "trace st1 = trace st @ news st st1 \<Longrightarrow> trace st2 = trace st1 @ news st1 st2 \<Longrightarrow>
   trace st2 = trace st @ news st st2 \<and> news st st2 = news st st1 @ news st1 st2"
  by (metis append.assoc news_eq)

lemma runMethods_summary:
  "runMethods n C reg gt t ms st = Some (r, st') \<Longrightarrow>
   trace st' = trace st @ news st st' \<and> \<not> list_ex is_group_hook (news st st') \<and>
   prefix (started (news st st')) (map subtest_name (test_cases ms)) \<and>
   (r = Inr () \<longrightarrow> started (news st st') = map subtest_name (test_cases ms))"
proof (induction ms arbitrary: st)
  case Nil
  then show ?case by simp
next
  case (Cons m ms)
  from Cons.prems obtain r1 st1 where
    step: "runMethod n C reg gt t m st = Some (r1, st1)"
    by (auto split: option.splits)
  note s = runMethod_summary[OF step]
  show ?case
  proof (cases r1)
    case (Inl a)
    with Cons.prems step have "r = Inl a" "st' = st1" by simp_all
    with s(1,2,3) show ?thesis
      by (auto simp: test_cases_def intro: prefix_order.trans)
  next
    case (Inr u)
    with Cons.prems step have rest: "runMethods n C reg gt t ms st1 = Some (r, st')" by simp
    from Cons.IH[OF rest] have ih: "trace st' = trace st1 @ news st1 st'"
      "\<not> list_ex is_group_hook (news st1 st')"
      "prefix (started (news st1 st')) (map subtest_name (test_cases ms))"
      "r = Inr () \<longrightarrow> started (news st1 st') = map subtest_name (test_cases ms)"
      by simp_all
    from news_append[OF s(1) ih(1)] have
      n: "trace st' = trace st @ news st st'" "news st st' = news st st1 @ news st1 st'"
      by simp_all
    from Inr s(4) have s4: "started (news st st1) = map subtest_name (test_cases [m])" by simp
    have "map subtest_name (test_cases (m # ms)) =
        map subtest_name (test_cases [m]) @ map subtest_name (test_cases ms)"
      by simp
    with n s(2) s4 ih show ?thesis by simp
  qed
qed

lemma runMethods_append:
  "runMethods n C reg gt t (xs @ ys) st =
     (case runMethods n C reg gt t xs st of
        None \<Rightarrow> None
      | Some (Inl a, st1) \<Rightarrow> Some (Inl a, st1)
      | Some (Inr u, st1) \<Rightarrow> runMethods n C reg gt t ys st1)"
  by (induction xs arbitrary: st) (auto split: option.splits sum.splits)

lemma resolved_tags:
  "resolved C reg t fs st vals st' \<Longrightarrow> field \<in> set fs \<Longrightarrow>
   \<exists>name fentry. fieldTag field = TagFixture name \<and> reg name = Some fentry"
  by (induction rule: resolved.induct) auto

lemma resolve_fields_append:
  "resolve_fields rec C reg t caller (xs @ ys) fv st =
     (case resolve_fields rec C reg t caller xs fv st of
        None \<Rightarrow> None
      | Some (Inl a, st1) \<Rightarrow> Some (Inl a, st1)
      | Some (Inr fv1, st1) \<Rightarrow> resolve_fields rec C reg t caller ys fv1 st1)"
  by (induction xs arbitrary: fv st) (auto split: option.splits sum.splits)

lemma is_teardown_group_hook: "list_ex is_teardown evs \<Longrightarrow> list_ex is_group_hook evs"
proof (induction evs)
  case (Cons e evs)
  then show ?case by (cases e) auto
qed simp

text \<open>How a run of a group ends, and its trace.\<close>

lemma RunSubTests_cases:
  assumes "RunSubTests n C reg gt u0 = Some (r, st)"
  obtains
    (setupExit) "r = Inl (Exited GroupT)" "trace st = [EvSetup GroupT Goexit]"
  | (aborted) a st1 where "r = Inl a" "trace st1 = [EvSetup GroupT Return]"
      "runMethods n C reg gt GroupT (itypeMethods (gtType gt)) st1 = Some (Inl a, st)"
  | (finished) st1 st2 s where "trace st1 = [EvSetup GroupT Return]"
      "runMethods n C reg gt GroupT (itypeMethods (gtType gt)) st1 = Some (Inr (), st2)"
      "trace st = trace st2 @ [EvTeardown GroupT s]"
      "r = (if s = Goexit then Inl (Exited GroupT) else Inr ())"
proof -
  let ?st0 = "\<lparr>Resolved = Map.empty, cleanUpCbs = [], user = u0, trace = []\<rparr> :: ('a, 'b) state"
  obtain s1 st1 where su: "callUser (Setup gt) EvSetup GroupT ?st0 = (s1, st1)"
    by (cases "callUser (Setup gt) EvSetup GroupT ?st0")
  from callUser_trace[OF su] have t1: "trace st1 = [EvSetup GroupT s1]" by simp
  show ?thesis
  proof (cases s1)
    case Goexit
    with su assms t1 show ?thesis by (intro setupExit) (auto simp: RunSubTests_def Let_def)
  next
    case Return
    with su assms obtain r2 st2 where
      rm: "runMethods n C reg gt GroupT (itypeMethods (gtType gt)) st1 = Some (r2, st2)"
      by (auto simp: RunSubTests_def Let_def split: option.splits)
    show ?thesis
    proof (cases r2)
      case (Inl a)
      with Return su rm assms have "r = Inl a" "st = st2"
        by (auto simp: RunSubTests_def Let_def)
      with rm Inl t1 Return show ?thesis by (intro aborted[of a st1]) simp_all
    next
      case (Inr u)
      obtain s3 st3 where td: "callUser (Teardown gt) EvTeardown GroupT st2 = (s3, st3)"
        by (cases "callUser (Teardown gt) EvTeardown GroupT st2")
      from Inr Return su rm td assms have "st = st3"
        "r = (if s3 = Goexit then Inl (Exited GroupT) else Inr ())"
        by (auto simp: RunSubTests_def Let_def split: signal.splits)
      with callUser_trace[OF td] rm Inr t1 Return show ?thesis
        by (intro finished[of st1 st2 s3]) simp_all
    qed
  qed
qed

lemma resolve_unregistered_never:
  assumes "fld \<in> set (typeFields ty)" "fieldTag fld = TagFixture name" "reg name = None"
  shows "resolve n C reg t ty caller st \<noteq> Some (Inr vals, st')"
proof
  assume "resolve n C reg t ty caller st = Some (Inr vals, st')"
  from resolve_resolved[OF this] have "resolved C reg t (typeFields ty) st vals st'" by simp
  from resolved_tags[OF this assms(1)] assms(2,3) show False by auto
qed

lemma resolve_unregistered_fatal:
  assumes ty: "typeKind ty = Struct" "typeFields ty = pre @ fld # post"
    and fld: "fieldTag fld = TagFixture name" "reg name = None"
    and pre: "resolvable k C reg pre" and cr: "constructs_return C"
  shows "\<exists>st'. resolve (Suc k) C reg t ty caller st =
      Some (Inl (Fatal (UnregisteredFixtureFound caller name)), st') \<and>
    last (trace st') = EvFatalf t (UnregisteredFixtureFound caller name)"
proof -
  have "\<exists>fv1 st1. resolve_fields (resolve k C reg t) C reg t caller pre [] st =
      Some (Inr fv1, st1)"
  proof (cases k)
    case 0
    with pre show ?thesis by simp
  next
    case (Suc k')
    show ?thesis unfolding Suc
      by (rule resolve_fields_total[OF _ cr pre[unfolded Suc]]) (rule resolve_total[OF cr])
  qed
  then obtain fv1 st1 where
    p: "resolve_fields (resolve k C reg t) C reg t caller pre [] st = Some (Inr fv1, st1)"
    by blast
  have f: "resolve_field (resolve k C reg t) C reg t caller fld fv1 st1 =
      Some (Fatalf t (UnregisteredFixtureFound caller name) st1)"
    using fld by (simp add: resolve_field_def)
  from ty p f show ?thesis
    by (simp add: Let_def resolve_fields_append Fatalf_def emit_def)
qed

section \<open>Runs that complete\<close>

lemma runCleanUpCbs_no_panic:
  "\<forall>cb\<in>set cbs. validateFixtureDestructMethod (TypeOf (cbF cb)) = None \<Longrightarrow>
   fst (runCleanUpCbs C cbs st) \<noteq> Inl Panic"
proof (induction cbs arbitrary: st)
  case Nil
  then show ?case by simp
next
  case (Cons cb cbs)
  from Cons.prems obtain m where m: "MethodByName (TypeOf (cbF cb)) ''Destruct'' = Some m"
    "NumIn m = 3"
    by (auto simp: validateFixtureDestructMethod_def Let_def split: option.splits if_splits)
  obtain sig u where d: "Destruct C (cbF cb) (cbT cb) (cbCtx cb) (user st) = (sig, u)"
    by (cases "Destruct C (cbF cb) (cbT cb) (cbCtx cb) (user st)")
  from Cons.IH[of "emit (EvDestruct (cbT cb) (cbF cb) (cbCtx cb) Return) (st\<lparr>user := u\<rparr>)"]
    Cons.prems m d
  show ?case by (cases sig) auto
qed

lemma subTest_no_panic:
  assumes "\<forall>cb\<in>set cbs. validateFixtureDestructMethod (TypeOf (cbF cb)) = None"
    and "subTest C gt name args cbs h st = (r, st')"
  shows "r \<noteq> Inl Panic"
proof -
  from subTest_trace[OF assms(2)] show ?thesis
  proof (elim disjE exE conjE)
    fix st2 rc st3 a
    assume "runCleanUpCbs C cbs st2 = (rc, st3)" "rc = Inl a" "r = Inl a"
    with runCleanUpCbs_no_panic[OF assms(1), of C st2] show ?thesis by auto
  qed auto
qed

text \<open>
  With destruct operations that return, a sub-unit ends by returning or by a fatal failure
  on its own handle.
\<close>

lemma subTest_own_handle:
  assumes "destructs_return C"
    and "\<forall>cb\<in>set cbs. validateFixtureDestructMethod (TypeOf (cbF cb)) = None"
    and "subTest C gt name args cbs h st = (r, st')"
  shows "r = Inr () \<or> r = Inl (Exited h)"
proof -
  from subTest_trace[OF assms(3)] show ?thesis
  proof (elim disjE exE conjE)
    fix st2 rc st3 a
    assume "runCleanUpCbs C cbs st2 = (rc, st3)" "rc = Inl a"
    with runCleanUpCbs_returns[OF assms(1,2), of st2] show ?thesis by auto
  qed auto
qed

lemma Run_subTest_completes:
  assumes "destructs_return C"
    and "\<forall>cb\<in>set cbs. validateFixtureDestructMethod (TypeOf (cbF cb)) = None"
  shows "\<exists>st'. Run t nm (subTest C gt name args cbs) st = (Inr (), st')"
proof -
  obtain r1 st2 where s: "subTest C gt name args cbs (SubT nm) (emit (EvRunStart nm) st) =
      (r1, st2)"
    by (cases "subTest C gt name args cbs (SubT nm) (emit (EvRunStart nm) st)")
  from subTest_own_handle[OF assms s] Run_eq[where f = "subTest C gt name args cbs", OF s]
  show ?thesis by auto
qed

lemma runMethod_completes:
  assumes p: "HasPrefix (methodName m) testMethodPrefix"
    and r: "runnable k C reg m" and cr: "constructs_return C" and dr: "destructs_return C"
    and rv: "registry_valid reg"
  shows "\<exists>st'. runMethod (Suc k) C reg gt t m st = Some (Inr (), st')"
proof -
  let ?nm = "TrimPrefix (methodName m) testMethodPrefix"
  note rm = runMethod_prefixed[OF p, of "Suc k" C reg gt t st]
  from r have T: "typeString (In m 1) = ''*testing.T''" by (simp add: runnable_def)
  from r consider (one) "length (methodIn m) = 1"
    | (two) "length (methodIn m) = 2" "typeKind (In m 2) = Struct"
        "resolvable k C reg (typeFields (In m 2))"
    by (auto simp: runnable_def)
  then show ?thesis
  proof cases
    case one
    then have ne: "methodIn m \<noteq> []" by auto
    from Run_subTest_completes[OF dr, where cbs = "[]" and nm = ?nm and gt = gt and t = t
        and name = "methodName m" and args = None and st = "reset st"]
    obtain st' where "Run t ?nm (subTest C gt (methodName m) None []) (reset st) = (Inr (), st')"
      by auto
    with rm one ne T show ?thesis by simp
  next
    case two
    then have ne: "methodIn m \<noteq> []" by auto
    from resolve_total[OF cr two(2,3), where t = t and caller = "methodName m"
        and st = "reset st"] obtain vals st1 where
      rs: "resolve (Suc k) C reg t (In m 2) (methodName m) (reset st) = Some (Inr vals, st1)"
      by blast
    from resolve_resolved[OF rs] have
      rd: "resolved C reg t (typeFields (In m 2)) (reset st) vals st1" by simp
    from resolved_trace(2)[OF rd] have cb: "cleanUpCbs st1 = cleanups_from (news (reset st) st1)"
      by simp
    from cleanups_from_registered[OF resolved_registered[OF rd]] rv cb
    have "\<forall>cb\<in>set (cleanUpCbs st1). validateFixtureDestructMethod (TypeOf (cbF cb)) = None"
      by (auto simp: registry_valid_def)
    from Run_subTest_completes[OF dr this, where nm = ?nm and gt = gt and t = t
        and name = "methodName m" and args = "Some vals" and st = st1]
    obtain st' where
      "Run t ?nm (subTest C gt (methodName m) (Some vals) (cleanUpCbs st1)) st1 = (Inr (), st')"
      by auto
    with rm two ne T rs show ?thesis by simp
  qed
qed

lemma runMethods_complete:
  assumes cr: "constructs_return C" and dr: "destructs_return C" and rv: "registry_valid reg"
  shows "\<forall>m\<in>set (test_cases ms). runnable k C reg m \<Longrightarrow>
         \<exists>st'. runMethods (Suc k) C reg gt t ms st = Some (Inr (), st')"
proof (induction ms arbitrary: st)
  case Nil
  then show ?case by simp
next
  case (Cons m ms)
  show ?case
  proof (cases "HasPrefix (methodName m) testMethodPrefix")
    case True
    with Cons.prems have "runnable k C reg m" by simp
    from runMethod_completes[OF True this cr dr rv, of gt t st] obtain st1 where
      "runMethod (Suc k) C reg gt t m st = Some (Inr (), st1)" by blast
    with Cons.IH[of st1] Cons.prems True show ?thesis by auto
  next
    case False
    then have "runMethod (Suc k) C reg gt t m st = Some (Inr (), reset st)"
      by (simp add: runMethod_def Let_def reset_def)
    with Cons.IH[of "reset st"] Cons.prems False show ?thesis by auto
  qed
qed

text \<open>
  A run of a group whose setup returns, whose test cases are runnable and whose fixture
  operations return reaches \<open>teardown\<close>, whatever the test methods and the other hooks do.
\<close>

lemma RunSubTests_completes:
  fixes gt :: "('v, 's) GTest"
  assumes su: "fst (Setup gt GroupT u0) = Return"
    and rn: "\<forall>m\<in>set (test_cases (itypeMethods (gtType gt))). runnable k C reg m"
    and cr: "constructs_return C" and dr: "destructs_return C" and rv: "registry_valid reg"
  shows "\<exists>r st mid s. RunSubTests (Suc k) C reg gt u0 = Some (r, st) \<and>
     trace st = EvSetup GroupT Return # mid @ [EvTeardown GroupT s] \<and>
     \<not> list_ex is_group_hook mid \<and>
     started mid = map subtest_name (test_cases (itypeMethods (gtType gt)))"
proof -
  let ?st0 = "\<lparr>Resolved = Map.empty, cleanUpCbs = [], user = u0, trace = []\<rparr> :: ('v, 's) state"
  let ?ms = "itypeMethods (gtType gt)"
  obtain s1 st1 where c: "callUser (Setup gt) EvSetup GroupT ?st0 = (s1, st1)"
    by (cases "callUser (Setup gt) EvSetup GroupT ?st0")
  with su have s1: "s1 = Return" by (auto simp: callUser_def split: prod.splits)
  from callUser_trace[OF c] s1 have t1: "trace st1 = [EvSetup GroupT Return]" by simp
  from runMethods_complete[OF cr dr rv rn, of gt GroupT st1] obtain st2 where
    rm: "runMethods (Suc k) C reg gt GroupT ?ms st1 = Some (Inr (), st2)" by blast
  obtain s3 st3 where td: "callUser (Teardown gt) EvTeardown GroupT st2 = (s3, st3)"
    by (cases "callUser (Teardown gt) EvTeardown GroupT st2")
  from c s1 rm td have run: "RunSubTests (Suc k) C reg gt u0 =
      Some (if s3 = Goexit then Inl (Exited GroupT) else Inr (), st3)"
    by (cases s3) (simp_all add: RunSubTests_def Let_def)
  from runMethods_summary[OF rm] have sm: "trace st2 = trace st1 @ news st1 st2"
    "\<not> list_ex is_group_hook (news st1 st2)"
    "started (news st1 st2) = map subtest_name (test_cases ?ms)" by simp_all
  from callUser_trace[OF td] sm(1) t1 have
    "trace st3 = EvSetup GroupT Return # news st1 st2 @ [EvTeardown GroupT s3]" by simp
  with run sm(2,3) show ?thesis by blast
qed

section \<open>Methods outside the naming convention\<close>

lemma reset_cong: "trace st = trace s \<Longrightarrow> user st = user s \<Longrightarrow> reset st = reset s"
  by (simp add: reset_def)

lemma runMethod_cong:
  assumes "trace st = trace s" "user st = user s"
  shows "runMethod n C reg gt t m st = runMethod n C reg gt t m s"
proof -
  have "st\<lparr>Resolved := Map.empty, cleanUpCbs := []\<rparr> = s\<lparr>Resolved := Map.empty, cleanUpCbs := []\<rparr>"
    using reset_cong[OF assms] by (simp add: reset_def)
  then show ?thesis by (simp add: runMethod_def)
qed

lemma runMethods_test_cases:
  "trace st = trace s \<Longrightarrow> user st = user s \<Longrightarrow>
   observe (runMethods n C reg gt t ms st) = observe (runMethods n C reg gt t (test_cases ms) s)"
proof (induction ms arbitrary: st s)
  case Nil
  then show ?case by (simp add: observe_def)
next
  case (Cons m ms)
  show ?case
  proof (cases "HasPrefix (methodName m) testMethodPrefix")
    case True
    note eq = runMethod_cong[OF Cons.prems, of n C reg gt t m]
    show ?thesis
    proof (cases "runMethod n C reg gt t m s")
      case None
      with eq True show ?thesis by (simp add: observe_def)
    next
      case (Some p)
      obtain r1 st1 where "p = (r1, st1)" by (cases p)
      with Some eq True Cons.IH[of st1 st1] show ?thesis
        by (cases r1) (simp_all add: observe_def)
    qed
  next
    case False
    then have "runMethod n C reg gt t m st = Some (Inr (), reset st)"
      by (simp add: runMethod_def Let_def reset_def)
    with False Cons.IH[of "reset st" s] Cons.prems show ?thesis by simp
  qed
qed

lemma runMethods_gtType:
  "runMethods n C reg (gt\<lparr>gtType := T\<rparr>) t ms st = runMethods n C reg gt t ms st"
proof -
  have "subTest C (gt\<lparr>gtType := T\<rparr>) = subTest C gt"
    by (intro ext) (simp add: subTest_def split: prod.splits signal.splits sum.splits)
  then have "runMethod n C reg (gt\<lparr>gtType := T\<rparr>) t m s = runMethod n C reg gt t m s" for m s
    by (simp only: runMethod_def)
  then show ?thesis
    by (induction ms arbitrary: st) (simp_all split: option.splits sum.splits prod.splits)
qed

lemma RunSubTests_observe:
  "observe (RunSubTests n C reg gt u0) =
     (case callUser (Setup gt) EvSetup GroupT
             \<lparr>Resolved = Map.empty, cleanUpCbs = [], user = u0, trace = []\<rparr> of
        (Goexit, st1) \<Rightarrow> Some (Inl (Exited GroupT), user st1, trace st1)
      | (Return, st1) \<Rightarrow>
          (case observe (runMethods n C reg gt GroupT (itypeMethods (gtType gt)) st1) of
             None \<Rightarrow> None
           | Some (Inl a, u2, tr2) \<Rightarrow> Some (Inl a, u2, tr2)
           | Some (Inr x, u2, tr2) \<Rightarrow>
               (case Teardown gt GroupT u2 of
                  (sig, u3) \<Rightarrow>
                    Some (if sig = Goexit then Inl (Exited GroupT) else Inr (), u3,
                      tr2 @ [EvTeardown GroupT sig]))))"
  by (auto simp: RunSubTests_def observe_def Let_def callUser_def emit_def
      split: prod.splits signal.splits option.splits sum.splits)

section \<open>The test methods called\<close>

lemma called_destruct_events [simp]: "called (map (destruct_event s) cbs) = []"
  by (induction cbs) (simp_all add: destruct_event_def)

lemma runCleanUpCbs_called:
  assumes "runCleanUpCbs C cbs st = (r, st')"
  shows "\<exists>ds. trace st' = trace st @ ds \<and> called ds = []"
  using runCleanUpCbs_trace[OF assms]
proof (elim disjE exE conjE)
  fix pre cb post
  assume "trace st' = trace st @ map (destruct_event Return) pre @ [destruct_event Goexit cb]"
  then show ?thesis
    by (intro exI[of _ "map (destruct_event Return) pre @ [destruct_event Goexit cb]"])
      (simp add: destruct_event_def)
qed auto

lemma subTest_called:
  assumes be: "\<forall>h u. fst (BeforeEach gt h u) = Return"
    and run: "subTest C gt name args cbs h st = (r, st')"
  shows "\<exists>evs. trace st' = trace st @ evs \<and> called evs = [(name, h)]"
proof -
  obtain s1 st1 where b: "callUser (BeforeEach gt) EvBeforeEach h st = (s1, st1)"
    by (cases "callUser (BeforeEach gt) EvBeforeEach h st")
  then have "s1 = fst (BeforeEach gt h (user st))"
    by (auto simp: callUser_def split: prod.splits)
  with be have s1: "s1 = Return" by simp
  note tb = callUser_trace[OF b]
  obtain s2 st2 where m: "callUser (\<lambda>t. CallMethod gt name t args)
      (\<lambda>t. EvMethod name t args) h st1 = (s2, st2)"
    by (cases "callUser (\<lambda>t. CallMethod gt name t args) (\<lambda>t. EvMethod name t args) h st1")
  note tm = callUser_trace[OF m]
  have t2: "trace st2 = trace st @ [EvBeforeEach h Return, EvMethod name h args s2]"
    using tb tm s1 by simp
  show ?thesis
  proof (cases s2)
    case Goexit
    with s1 b m run have "st' = st2" by (simp add: subTest_def)
    with t2 show ?thesis by (intro exI[of _ "[EvBeforeEach h Return, EvMethod name h args s2]"]) simp
  next
    case Return
    obtain rc st3 where c: "runCleanUpCbs C cbs st2 = (rc, st3)"
      by (cases "runCleanUpCbs C cbs st2")
    from runCleanUpCbs_called[OF c] obtain ds where
      ds: "trace st3 = trace st2 @ ds" "called ds = []" by blast
    show ?thesis
    proof (cases rc)
      case (Inl a)
      with Return s1 b m c run have "st' = st3" by (auto simp: subTest_def)
      with t2 ds show ?thesis
        by (intro exI[of _ "[EvBeforeEach h Return, EvMethod name h args s2] @ ds"]) simp
    next
      case (Inr x)
      obtain s4 st4 where a: "callUser (AfterEach gt) EvAfterEach h st3 = (s4, st4)"
        by (cases "callUser (AfterEach gt) EvAfterEach h st3")
      from Inr Return s1 b m c a run have "st' = st4"
        by (auto simp: subTest_def split: signal.splits)
      with callUser_trace[OF a] t2 ds show ?thesis
        by (intro exI[of _ "[EvBeforeEach h Return, EvMethod name h args s2] @ ds @
              [EvAfterEach h s4]"]) simp
    qed
  qed
qed

lemma runMethod_called:
  assumes be: "\<forall>h u. fst (BeforeEach gt h u) = Return"
    and run: "runMethod n C reg gt t m st = Some (Inr (), st')"
  shows "called (news st st') =
    map (\<lambda>m. (methodName m, SubT (subtest_name m))) (test_cases [m])"
  using run
proof (cases rule: runMethod_cases)
  case skipped
  then show ?thesis by (simp add: news_def)
next
  case (aborted a evs)
  then show ?thesis by simp
next
  case (ran a cons st1 r1 st2)
  let ?nm = "TrimPrefix (methodName m) testMethodPrefix"
  from subTest_called[OF be ran(6)] obtain evs where
    evs: "trace st2 = trace st1 @ EvRunStart ?nm # evs" "called evs = [(methodName m, SubT ?nm)]"
    by (auto simp: emit_def)
  from ran(7) have "st' = emit (EvRunEnd ?nm) st2" by auto
  with evs(1) ran(4) have "trace st' = trace st @ cons @ EvRunStart ?nm # evs @ [EvRunEnd ?nm]"
    by (simp add: emit_def)
  from news_eq[OF this] evs(2) ran(1)
    resolver_events_quiet[OF returned_construct_resolver_event[OF ran(2)]]
  show ?thesis by (simp add: subtest_name_def)
qed

lemma runMethods_called:
  assumes be: "\<forall>h u. fst (BeforeEach gt h u) = Return"
  shows "runMethods n C reg gt t ms st = Some (Inr (), st') \<Longrightarrow>
    called (news st st') = map (\<lambda>m. (methodName m, SubT (subtest_name m))) (test_cases ms)"
proof (induction ms arbitrary: st)
  case Nil
  then show ?case by simp
next
  case (Cons m ms)
  from Cons.prems obtain st1 where
    step: "runMethod n C reg gt t m st = Some (Inr (), st1)"
    and rest: "runMethods n C reg gt t ms st1 = Some (Inr (), st')"
    by (auto split: option.splits sum.splits)
  from runMethods_summary[OF rest] have "trace st' = trace st1 @ news st1 st'" by simp
  from news_append[OF runMethod_summary(1)[OF step] this]
  have "news st st' = news st st1 @ news st1 st'" by simp
  with runMethod_called[OF be step] Cons.IH[OF rest] show ?case by simp
qed

lemma exGroup_runnable_all:
  "list_all (runnable 2 exCode exRegistry) (test_cases (itypeMethods (gtType exGroup)))"
  by code_simp

lemma exGroup_runnable:
  "\<forall>m\<in>set (test_cases (itypeMethods (gtType exGroup))).
     runnable 2 exCode exRegistry m"
  using exGroup_runnable_all by (simp add: list_all_iff)

section \<open>Dependencies are constructed first\<close>

lemma supplied_mono:
  "supplied reg seen fs vals \<Longrightarrow> set seen \<subseteq> set seen' \<Longrightarrow> set vals \<subseteq> set vals' \<Longrightarrow>
   supplied reg seen' fs vals'"
  unfolding supplied_def list_all_iff list_ex_iff
  by (fastforce split: FieldTag.splits option.splits)

lemma supplied_Cons:
  "supplied reg seen (field # rest) vals =
     (supplied reg seen [field] vals \<and> supplied reg seen rest vals)"
  by (simp add: supplied_def)

lemma deps_first_append:
  "deps_first reg seen (xs @ ys) = (deps_first reg seen xs \<and> deps_first reg (seen @ xs) ys)"
  by (induction reg seen xs rule: deps_first.induct) simp_all

lemma deps_first_at:
  "deps_first reg [] (pre @ EvConstruct h g d r # post) \<Longrightarrow>
   supplied reg pre (construct_shape g) d"
  by (simp add: deps_first_append)

lemma constructed_value_split:
  assumes "list_ex (constructed_value g v) evs"
  obtains pre h d c post where "evs = pre @ EvConstruct h g d (Returns v c) # post"
proof -
  from assms obtain ev where "ev \<in> set evs" and cv: "constructed_value g v ev"
    by (auto simp: list_ex_iff)
  then obtain pre post where "evs = pre @ ev # post" by (meson split_list)
  moreover from cv obtain h d c where "ev = EvConstruct h g d (Returns v c)"
    by (cases "(g, v, ev)" rule: constructed_value.cases) auto
  ultimately show ?thesis using that by blast
qed

lemma supplied_field:
  assumes "supplied reg seen fs vals" and "field \<in> set fs"
    and "fieldTag field = TagFixture name" and "reg name = Some fentry"
  obtains v where "(fieldName field, v) \<in> set vals"
    and "list_ex (constructed_value (Instance fentry) v) seen"
  using assms unfolding supplied_def list_all_iff list_ex_iff
  by (fastforce split: FieldTag.splits option.splits)

lemma resolved_supplies:
  "resolved C reg t fs st vals st' \<Longrightarrow>
   (\<forall>g v. Resolved st g = Some v \<longrightarrow> list_ex (constructed_value g v) E) \<Longrightarrow>
   deps_first reg [] E \<Longrightarrow>
   (\<forall>g v. Resolved st' g = Some v \<longrightarrow> list_ex (constructed_value g v) (E @ news st st')) \<and>
   deps_first reg [] (E @ news st st') \<and>
   supplied reg (E @ news st st') fs vals"
proof (induction arbitrary: E rule: resolved.induct)
  case (Done st)
  then show ?case by (simp add: news_def supplied_def)
next
  case (Cached field name fentry st valVal rest vals st')
  from Cached.IH[OF Cached.prems]
  have J: "\<forall>g v. Resolved st' g = Some v \<longrightarrow> list_ex (constructed_value g v) (E @ news st st')"
    and D: "deps_first reg [] (E @ news st st')"
    and V: "supplied reg (E @ news st st') rest vals" by auto
  from Cached.prems(1) Cached.hyps(4)
  have "list_ex (constructed_value (Instance fentry) valVal) E" by blast
  then have "list_ex (constructed_value (Instance fentry) valVal) (E @ news st st')" by simp
  then have "supplied reg (E @ news st st') [field] ((fieldName field, valVal) # vals)"
    using Cached.hyps(1,2) by (simp add: supplied_def)
  moreover from V have "supplied reg (E @ news st st') rest ((fieldName field, valVal) # vals)"
    by (rule supplied_mono) auto
  ultimately show ?case using J D supplied_Cons[of reg _ field rest] by blast
next
  case (Constructed field name fentry f st depsVal st1 valVal ctxVal u st2 rest vals st')
  let ?ev = "EvConstruct t f depsVal (Returns valVal ctxVal)"
  from Constructed.IH(1)[OF Constructed.prems]
  have J1: "\<forall>g v. Resolved st1 g = Some v \<longrightarrow> list_ex (constructed_value g v) (E @ news st st1)"
    and D1: "deps_first reg [] (E @ news st st1)"
    and V1: "supplied reg (E @ news st st1) (construct_shape f) depsVal" by auto
  let ?E2 = "E @ news st st1 @ [?ev]"
  have J2: "\<forall>g v. Resolved st2 g = Some v \<longrightarrow> list_ex (constructed_value g v) ?E2"
    using J1 Constructed.hyps(10) by (auto split: if_splits)
  have D2: "deps_first reg [] ?E2"
    using D1 V1 deps_first_append[of reg "[]" "E @ news st st1" "[?ev]"] by simp
  from Constructed.IH(2)[OF J2 D2]
  have J: "\<forall>g v. Resolved st' g = Some v \<longrightarrow> list_ex (constructed_value g v) (?E2 @ news st2 st')"
    and D: "deps_first reg [] (?E2 @ news st2 st')"
    and V: "supplied reg (?E2 @ news st2 st') rest vals" by auto
  have n: "news st st' = news st st1 @ ?ev # news st2 st'"
    using Constructed.hyps(5,7,11) by (rule Constructed_news)
  then have e: "E @ news st st' = ?E2 @ news st2 st'" by simp
  have "list_ex (constructed_value f valVal) (E @ news st st')"
    unfolding e by simp
  then have "supplied reg (E @ news st st') [field] ((fieldName field, valVal) # vals)"
    using Constructed.hyps(1,2,3) by (simp add: supplied_def)
  moreover from V have "supplied reg (E @ news st st') rest ((fieldName field, valVal) # vals)"
    unfolding e by (rule supplied_mono) auto
  ultimately show ?case using J D supplied_Cons[of reg _ field rest] unfolding e by blast
qed

lemma resolved_cleanups_valid:
  assumes "resolved C reg t fs st vals st'" and "registry_valid reg"
  shows "\<forall>cb\<in>set (cleanups_from (news st st')).
           validateFixtureDestructMethod (TypeOf (cbF cb)) = None"
proof -
  from resolved_registered[OF assms(1)]
  have "\<forall>cb\<in>set (cleanups_from (news st st')). cbF cb \<in> Instance ` ran reg"
    by (rule cleanups_from_registered)
  with assms(2) show ?thesis by (auto simp: registry_valid_def)
qed

lemma st0_fresh: "Resolved st0 = Map.empty" "cleanUpCbs st0 = []"
  by (simp_all add: st0_def)

section \<open>One construction for each reference out of the cache\<close>

lemma nested_refs_append [simp]:
  "nested_refs reg f (xs @ ys) = nested_refs reg f xs + nested_refs reg f ys"
  by (induction reg f xs rule: nested_refs.induct) simp_all

lemma resolved_length:
  "resolved C reg t fs st vals st' \<Longrightarrow> length vals = length fs"
  using resolved_names[of C reg t fs st vals st'] by (metis length_map)

lemma filter_zip_length:
  "length xs = length ys \<Longrightarrow>
   length (filter (P \<circ> fst) (zip xs ys)) = length (filter P xs)"
  by (induction xs ys rule: list_induct2) simp_all

lemma cleanups_from_subseq:
  "subseq xs ys \<Longrightarrow> subseq (cleanups_from xs) (cleanups_from ys)"
proof (induction rule: list_emb.induct)
  case (list_emb_Nil ys)
  then show ?case by simp
next
  case (list_emb_Cons xs ys y)
  have "subseq (cleanups_from ys) (cleanups_from (y # ys))"
    by (cases "y # ys" rule: cleanups_from.cases) auto
  with list_emb_Cons.IH show ?case by (rule subseq_order.trans)
next
  case (list_emb_Cons2 x y xs ys)
  then have "x = y" by simp
  with list_emb_Cons2.IH show ?case
    by (cases "y # ys" rule: cleanups_from.cases) auto
qed

lemma constructs_for_cleanups:
  "list_all2 (constructs_for t f) ps evs \<Longrightarrow>
   length (cleanups_from evs) = length ps \<and>
   list_all (\<lambda>cb. cbT cb = t \<and> cbF cb = f) (cleanups_from evs)"
proof (induction rule: list_all2_induct)
  case Nil
  then show ?case by simp
next
  case (Cons p ps ev evs)
  from Cons.hyps(1) obtain field n v h d c
    where "p = (field, n, v)" "ev = EvConstruct t f d (Returns v c)"
    by (cases "(t, f, p, ev)" rule: constructs_for.cases) auto
  with Cons.IH show ?case by simp
qed

lemma resolved_call_refs:
  "resolved C reg t fs st vals st' \<Longrightarrow>
   \<exists>evs. subseq evs (news st st') \<and>
     list_all2 (constructs_for t f) (filter (call_ref reg f \<circ> fst) (zip fs vals)) evs"
proof (induction rule: resolved.induct)
  case (Done st)
  then show ?case by simp
next
  case (Cached field name fentry st valVal rest vals st')
  from Cached.hyps(1,2,3) have "\<not> call_ref reg f field" by (simp add: call_ref_def)
  with Cached.IH show ?case by simp
next
  case (Constructed field name fentry g st depsVal st1 valVal ctxVal u st2 rest vals st')
  let ?ev = "EvConstruct t g depsVal (Returns valVal ctxVal)"
  from Constructed.IH(2) obtain evs where s: "subseq evs (news st2 st')"
    and a: "list_all2 (constructs_for t f) (filter (call_ref reg f \<circ> fst) (zip rest vals)) evs"
    by blast
  have n: "news st st' = news st st1 @ ?ev # news st2 st'"
    using Constructed.hyps(5,7,11) by (rule Constructed_news)
  show ?case
  proof (cases "call_ref reg f field")
    case True
    with Constructed.hyps(1,2,3) have "g = f" by (simp add: call_ref_def)
    with a True have "list_all2 (constructs_for t f)
        (filter (call_ref reg f \<circ> fst) (zip (field # rest) ((fieldName field, valVal) # vals)))
        (?ev # evs)" by simp
    moreover from s have "subseq (?ev # evs) (news st st')"
      unfolding n by (intro subseq_drop_many subseq_Cons2)
    ultimately show ?thesis by blast
  next
    case False
    with a have "list_all2 (constructs_for t f)
        (filter (call_ref reg f \<circ> fst) (zip (field # rest) ((fieldName field, valVal) # vals)))
        evs" by simp
    moreover from s have "subseq evs (news st st')"
      unfolding n by (intro subseq_drop_many list_emb_Cons)
    ultimately show ?thesis by blast
  qed
qed

lemma refers_entry:
  "fieldTag field = TagFixture name \<Longrightarrow> reg name = Some fentry \<Longrightarrow>
   refers reg f field = (Instance fentry = f)"
  by (simp add: refers_def)

lemma resolved_call_count:
  "resolved C reg t fs st vals st' \<Longrightarrow> only_call reg f \<Longrightarrow>
   length (filter (is_construct_of f) (news st st')) =
     length (filter (refers reg f) fs) + nested_refs reg f (news st st')"
proof (induction rule: resolved.induct)
  case (Done st)
  then show ?case by simp
next
  case (Cached field name fentry st valVal rest vals st')
  from Cached.prems Cached.hyps(2,3) have "Instance fentry \<noteq> f"
    unfolding only_call_def by blast
  then have "\<not> refers reg f field"
    using refers_entry[where reg = reg and f = f, OF Cached.hyps(1,2)] by simp
  with Cached.IH[OF Cached.prems] show ?case by simp
next
  case (Constructed field name fentry g st depsVal st1 valVal ctxVal u st2 rest vals st')
  let ?ev = "EvConstruct t g depsVal (Returns valVal ctxVal)"
  have n: "news st st' = news st st1 @ ?ev # news st2 st'"
    using Constructed.hyps(5,7,11) by (rule Constructed_news)
  have r: "refers reg f field = (g = f)"
    using refers_entry[where reg = reg and f = f, OF Constructed.hyps(1,2)] Constructed.hyps(3) by simp
  from Constructed.IH(1)[OF Constructed.prems] Constructed.IH(2)[OF Constructed.prems]
  show ?case unfolding n by (simp add: r)
qed

lemma cleanups_from_filter:
  "filter (\<lambda>cb. cbF cb = f) (cleanups_from evs) = cleanups_from (filter (is_construct_of f) evs)"
  by (induction evs rule: cleanups_from.induct) simp_all

lemma cleanups_from_length:
  "list_all (returned_construct t) evs \<Longrightarrow> length (cleanups_from evs) = length evs"
  by (induction evs rule: cleanups_from.induct) simp_all

lemma only_call_refs: "only_call reg f \<Longrightarrow> call_ref reg f = refers reg f"
  by (auto simp: only_call_def call_ref_def refers_def fun_eq_iff
      split: FieldTag.splits option.splits)

lemma exRegistry_only_call: "only_call exRegistry UserIdFixture"
  unfolding only_call_def exRegistry_def
  by (auto simp: UserIdFixture_def TmpDirFixture_def ScopeCall_def ScopeSubTest_def
      split: if_splits)

lemma exCallScoped_run:
  "map_option (\<lambda>p. (fst p, trace (snd p), cleanUpCbs (snd p)))
     (resolve (Suc 1) exCode exRegistry GroupT (In SubTestCallScopedStringFixture 2)
        ''SubTestCallScopedStringFixture'' st0) =
   Some (Inr [(''UserId1'', UserId 1), (''UserId2'', UserId 2), (''UserId3'', UserId 3)],
     [EvConstruct GroupT UserIdFixture [] (Returns (UserId 1) Nil),
      EvConstruct GroupT UserIdFixture [] (Returns (UserId 2) Nil),
      EvConstruct GroupT UserIdFixture [] (Returns (UserId 3) Nil)],
     [\<lparr>cbT = GroupT, cbF = UserIdFixture, cbCtx = Nil\<rparr>,
      \<lparr>cbT = GroupT, cbF = UserIdFixture, cbCtx = Nil\<rparr>,
      \<lparr>cbT = GroupT, cbF = UserIdFixture, cbCtx = Nil\<rparr>])"
  by code_simp

section \<open>A fixture of sub-test scope is constructed once\<close>

lemma deps_wired_append [simp]:
  "deps_wired reg f v (xs @ ys) = (deps_wired reg f v xs \<and> deps_wired reg f v ys)"
  by (induction reg f v xs rule: deps_wired.induct) simp_all

lemma deps_named_append [simp]:
  "deps_named (xs @ ys) = (deps_named xs \<and> deps_named ys)"
  by (induction xs rule: deps_named.induct) simp_all

lemma wired_Cons [simp]:
  "wired reg f v (field # rest) (nv # vals) =
     (fst nv = fieldName field \<and> (refers reg f field \<longrightarrow> snd nv = v) \<and>
      wired reg f v rest vals)"
  by (simp add: wired_def)

lemma wired_Nil [simp]: "wired reg f v [] []"
  by (simp add: wired_def)

lemma no_refs_wired:
  "map fst vals = map fieldName fs \<Longrightarrow> filter (refers reg f) fs = [] \<Longrightarrow>
   wired reg f v fs vals"
proof (induction fs arbitrary: vals)
  case Nil
  then show ?case by simp
next
  case (Cons field rest)
  then obtain nv vals' where "vals = nv # vals'" by (cases vals) auto
  with Cons show ?case by (auto split: if_splits)
qed

lemma no_nested_refs_wired:
  "nested_refs reg f evs = 0 \<Longrightarrow> deps_named evs \<Longrightarrow> deps_wired reg f v evs"
  by (induction reg f evs rule: nested_refs.induct) (simp_all add: no_refs_wired)

lemma resolved_deps_named:
  "resolved C reg t fs st vals st' \<Longrightarrow> deps_named (news st st')"
proof (induction rule: resolved.induct)
  case (Constructed field name fentry f st depsVal st1 valVal ctxVal u st2 rest vals st')
  have "news st st' =
      news st st1 @ EvConstruct t f depsVal (Returns valVal ctxVal) # news st2 st'"
    using Constructed.hyps(5,7,11) by (rule Constructed_news)
  with Constructed.IH resolved_names[OF Constructed.hyps(5)] show ?case by simp
qed simp_all

lemma resolvable_Cons:
  assumes "resolvable k C reg (field # rest)"
  obtains k' where "k = Suc k'" "resolvable k C reg rest"
    "\<And>name fentry. fieldTag field = TagFixture name \<Longrightarrow> reg name = Some fentry \<Longrightarrow>
       resolvable k' C reg (construct_shape (Instance fentry))"
proof (cases k)
  case 0
  with assms show ?thesis by simp
next
  case (Suc k')
  with assms have "resolvable k C reg rest" by simp
  moreover from assms Suc
  have "\<And>name fentry. fieldTag field = TagFixture name \<Longrightarrow> reg name = Some fentry \<Longrightarrow>
       resolvable k' C reg (construct_shape (Instance fentry))"
    by (auto split: FieldTag.splits option.splits)
  ultimately show ?thesis using Suc that by blast
qed

lemma resolved_depth:
  "resolved C reg t fs st vals st' \<Longrightarrow> resolvable k C reg fs \<Longrightarrow>
   \<forall>ev\<in>set (news st st'). \<forall>g. is_construct_of g ev \<longrightarrow>
      (\<exists>j<k. resolvable j C reg (construct_shape g))"
proof (induction arbitrary: k rule: resolved.induct)
  case (Done st)
  then show ?case by simp
next
  case (Cached field name fentry st valVal rest vals st')
  from Cached.prems obtain k' where "resolvable k C reg rest" by (rule resolvable_Cons)
  then show ?case by (rule Cached.IH)
next
  case (Constructed field name fentry f st depsVal st1 valVal ctxVal u st2 rest vals st')
  let ?ev = "EvConstruct t f depsVal (Returns valVal ctxVal)"
  from Constructed.prems obtain k' where k: "k = Suc k'" and rr: "resolvable k C reg rest"
    and rs: "resolvable k' C reg (construct_shape (Instance fentry))"
    using Constructed.hyps(1,2) by (elim resolvable_Cons) blast
  have n: "news st st' = news st st1 @ ?ev # news st2 st'"
    using Constructed.hyps(5,7,11) by (rule Constructed_news)
  from rs Constructed.hyps(3) have rs': "resolvable k' C reg (construct_shape f)" by simp
  from Constructed.IH(1)[OF rs'] k
  have a: "\<forall>ev\<in>set (news st st1). \<forall>g. is_construct_of g ev \<longrightarrow>
      (\<exists>j<k. resolvable j C reg (construct_shape g))"
    using less_SucI by blast
  from rs' k have b: "\<forall>g. is_construct_of g ?ev \<longrightarrow>
      (\<exists>j<k. resolvable j C reg (construct_shape g))" by auto
  from a b Constructed.IH(2)[OF rr] show ?case unfolding n by auto
qed

lemma not_constructed_within:
  assumes "resolved C reg t (construct_shape f) st d st1"
    and "resolvable k C reg (construct_shape f)"
  shows "\<not> list_ex (is_construct_of f) (news st st1)"
proof
  assume ex: "list_ex (is_construct_of f) (news st st1)"
  let ?k0 = "LEAST j. resolvable j C reg (construct_shape f)"
  from assms(2) have "resolvable ?k0 C reg (construct_shape f)" by (rule LeastI)
  from resolved_depth[OF assms(1) this] ex
  obtain j where "j < ?k0" "resolvable j C reg (construct_shape f)"
    by (auto simp: list_ex_iff)
  then show False using not_less_Least by blast
qed

lemma not_list_ex_filter: "\<not> list_ex P xs \<Longrightarrow> filter P xs = []"
  by (simp add: list_ex_iff filter_empty_conv)

lemma resolved_cache_kept:
  assumes "resolved C reg t fs st vals st'" and "\<not> list_ex (is_construct_of g) (news st st')"
  shows "Resolved st' g = Resolved st g"
  using resolved_cache_change[OF assms(1)] assms(2) by blast

lemma resolved_shares_cache:
  "resolved C reg t fs st vals st' \<Longrightarrow> only_subtest reg f \<Longrightarrow> resolvable k C reg fs \<Longrightarrow>
   cache_inv reg f E st \<Longrightarrow>
   cache_inv reg f (E @ news st st') st' \<and>
   (Resolved st' f = None \<longrightarrow> filter (refers reg f) fs = []) \<and>
   (\<forall>v. Resolved st' f = Some v \<longrightarrow> wired reg f v fs vals)"
proof (induction arbitrary: k E rule: resolved.induct)
  case (Done st)
  then show ?case by simp
next
  case (Cached field name fentry st valVal rest vals st')
  from Cached.prems(2) obtain k' where rr: "resolvable k C reg rest" by (rule resolvable_Cons)
  from Cached.IH[OF Cached.prems(1) rr Cached.prems(3)]
  have inv: "cache_inv reg f (E @ news st st') st'"
    and none: "Resolved st' f = None \<longrightarrow> filter (refers reg f) rest = []"
    and some: "\<forall>v. Resolved st' f = Some v \<longrightarrow> wired reg f v rest vals" by blast+
  have r: "refers reg f field = (Instance fentry = f)"
    using refers_entry[where reg = reg and f = f, OF Cached.hyps(1,2)] .
  show ?case
  proof (cases "Instance fentry = f")
    case True
    with Cached.hyps(4) have "Resolved st f = Some valVal" by simp
    from resolved_mono[OF Cached.hyps(5) this] have "Resolved st' f = Some valVal" .
    with inv some show ?thesis by simp
  next
    case False
    with inv none some r show ?thesis by simp
  qed
next
  case (Constructed field name fentry g st depsVal st1 valVal ctxVal u st2 rest vals st')
  let ?ev = "EvConstruct t g depsVal (Returns valVal ctxVal)"
  from Constructed.prems(2) obtain k' where rr: "resolvable k C reg rest"
    and rs: "resolvable k' C reg (construct_shape (Instance fentry))"
    using Constructed.hyps(1,2) by (elim resolvable_Cons) blast
  from rs Constructed.hyps(3) have rs': "resolvable k' C reg (construct_shape g)" by simp
  have n: "news st st' = news st st1 @ ?ev # news st2 st'"
    using Constructed.hyps(5,7,11) by (rule Constructed_news)
  have r: "refers reg f field = (g = f)"
    using refers_entry[where reg = reg and f = f, OF Constructed.hyps(1,2)] Constructed.hyps(3)
    by simp
  from Constructed.IH(1)[OF Constructed.prems(1) rs' Constructed.prems(3)]
  have inv1: "cache_inv reg f (E @ news st st1) st1"
    and none1: "Resolved st1 f = None \<longrightarrow> filter (refers reg f) (construct_shape g) = []"
    and some1: "\<forall>v. Resolved st1 f = Some v \<longrightarrow> wired reg f v (construct_shape g) depsVal"
    by blast+
  let ?E2 = "E @ news st st1 @ [?ev]"
  note nm = resolved_names[OF Constructed.hyps(5)]
  from inv1 have dn1: "deps_named (E @ news st st1)" by (simp add: cache_inv_def)
  with nm have dn2: "deps_named ?E2" by simp
  have inv2: "cache_inv reg f ?E2 st2" and set2: "g = f \<longrightarrow> Resolved st2 f = Some valVal"
  proof -
    show "cache_inv reg f ?E2 st2"
    proof (cases "g = f")
      case True
      with Constructed.prems(1) Constructed.hyps(2,3) have sc: "Scope fentry = ScopeSubTest"
        unfolding only_subtest_def by blast
      with Constructed.hyps(4) True have "Resolved st f = None" by simp
      moreover from not_constructed_within[OF Constructed.hyps(5) rs'] True
      have "\<not> list_ex (is_construct_of f) (news st st1)" by simp
      from resolved_cache_kept[OF Constructed.hyps(5) this]
      have "Resolved st1 f = Resolved st f" .
      ultimately have c1: "Resolved st1 f = None" by simp
      with inv1 have nc: "\<not> list_ex (is_construct_of f) (E @ news st st1)"
        and nr: "nested_refs reg f (E @ news st st1) = 0" by (simp_all add: cache_inv_def)
      from c1 none1 True have sh: "filter (refers reg f) (construct_shape f) = []" by simp
      from sc Constructed.hyps(10) True have c2: "Resolved st2 f = Some valVal" by simp
      from not_list_ex_filter[OF nc] True
      have "filter (is_construct_of f) ?E2 = [EvConstruct t f depsVal (Returns valVal ctxVal)]"
        by simp
      moreover have "deps_wired reg f valVal ?E2"
        using no_nested_refs_wired[OF nr dn1, of valVal]
          no_refs_wired[OF nm[unfolded True] sh, of valVal] True
        by simp
      ultimately show ?thesis using c2 dn2 by (auto simp: cache_inv_def)
    next
      case False
      with Constructed.hyps(10) have c2: "Resolved st2 f = Resolved st1 f" by simp
      show ?thesis
      proof (cases "Resolved st1 f")
        case None
        with inv1 have nc: "\<not> list_ex (is_construct_of f) (E @ news st st1)"
          and nr: "nested_refs reg f (E @ news st st1) = 0" by (simp_all add: cache_inv_def)
        from None none1 have "filter (refers reg f) (construct_shape g) = []" by simp
        with nc nr False c2 None dn2 show ?thesis by (simp add: cache_inv_def)
      next
        case (Some v)
        with inv1 obtain h d c
          where "filter (is_construct_of f) (E @ news st st1) = [EvConstruct h f d (Returns v c)]"
            and "deps_wired reg f v (E @ news st st1)" by (auto simp: cache_inv_def)
        moreover from Some some1 have "wired reg f v (construct_shape g) depsVal" by simp
        ultimately show ?thesis using False c2 Some dn2 by (simp add: cache_inv_def)
      qed
    qed
    show "g = f \<longrightarrow> Resolved st2 f = Some valVal"
    proof
      assume gf: "g = f"
      with Constructed.prems(1) Constructed.hyps(2,3) have "Scope fentry = ScopeSubTest"
        unfolding only_subtest_def by blast
      with Constructed.hyps(10) gf show "Resolved st2 f = Some valVal" by simp
    qed
  qed
  from Constructed.IH(2)[OF Constructed.prems(1) rr inv2]
  have inv: "cache_inv reg f (?E2 @ news st2 st') st'"
    and none: "Resolved st' f = None \<longrightarrow> filter (refers reg f) rest = []"
    and some: "\<forall>v. Resolved st' f = Some v \<longrightarrow> wired reg f v rest vals" by blast+
  have e: "E @ news st st' = ?E2 @ news st2 st'" unfolding n by simp
  show ?case
  proof (cases "g = f")
    case True
    with set2 have "Resolved st2 f = Some valVal" by simp
    from resolved_mono[OF Constructed.hyps(11) this] have "Resolved st' f = Some valVal" .
    with inv some show ?thesis unfolding e by simp
  next
    case False
    with inv none some r show ?thesis unfolding e by simp
  qed
qed

lemma exRegistry_only_subtest: "only_subtest exRegistry TmpDirFixture"
  unfolding only_subtest_def exRegistry_def
  by (auto simp: UserIdFixture_def MockUserFixture_def TmpDirFixture_def split: if_splits)

lemma exTwoNames_run:
  "map_option (\<lambda>p. (fst p, trace (snd p), cleanUpCbs (snd p)))
     (resolve (Suc 1) exCode exRegistry GroupT (In SubTestTwoNames 2)
        ''SubTestTwoNames'' st0) =
   Some (Inr [(''Dir1'', Dir 1), (''Dir2'', Dir 1), (''Dir3'', Dir 1)],
     [EvConstruct GroupT TmpDirFixture [] (Returns (Dir 1) (Dir 1))],
     [\<lparr>cbT = GroupT, cbF = TmpDirFixture, cbCtx = Dir 1\<rparr>])"
  by code_simp

section \<open>The order inside a sub-unit\<close>





section \<open>Every run of a group\<close>

lemma subTest_called_any:
  assumes "subTest C gt name args cbs h st = (r, st')"
  shows "\<exists>evs. trace st' = trace st @ evs \<and> (called evs = [] \<or> called evs = [(name, h)])"
proof -
  from subTest_trace[OF assms] show ?thesis
  proof (elim disjE exE conjE)
    assume "trace st' = trace st @ [EvBeforeEach h Goexit]"
    then show ?thesis by (intro exI[of _ "[EvBeforeEach h Goexit]"]) simp
  next
    assume "trace st' = trace st @ [EvBeforeEach h Return, EvMethod name h args Goexit]"
    then show ?thesis
      by (intro exI[of _ "[EvBeforeEach h Return, EvMethod name h args Goexit]"]) simp
  next
    fix st2 rc st3 a
    assume t2: "trace st2 = trace st @ [EvBeforeEach h Return, EvMethod name h args Return]"
      and rc: "runCleanUpCbs C cbs st2 = (rc, st3)" and e: "st' = st3"
    from runCleanUpCbs_called[OF rc] obtain ds where
      "trace st3 = trace st2 @ ds" "called ds = []" by blast
    with t2 e show ?thesis
      by (intro exI[of _ "[EvBeforeEach h Return, EvMethod name h args Return] @ ds"]) simp
  next
    fix st2 rc st3 sig
    assume t2: "trace st2 = trace st @ [EvBeforeEach h Return, EvMethod name h args Return]"
      and rc: "runCleanUpCbs C cbs st2 = (rc, st3)"
      and t': "trace st' = trace st3 @ [EvAfterEach h sig]"
    from runCleanUpCbs_called[OF rc] obtain ds where
      "trace st3 = trace st2 @ ds" "called ds = []" by blast
    with t2 t' show ?thesis
      by (intro exI[of _ "[EvBeforeEach h Return, EvMethod name h args Return] @ ds @
            [EvAfterEach h sig]"]) simp
  qed
qed

lemma runMethod_called_any:
  assumes "runMethod n C reg gt t m st = Some (r, st')"
  shows "subseq (called (news st st'))
    (map (\<lambda>m. (methodName m, SubT (subtest_name m))) (test_cases [m]))"
  using assms
proof (cases rule: runMethod_cases)
  case skipped
  then show ?thesis by (simp add: news_def)
next
  case (aborted a evs)
  from news_eq[OF aborted(3)] resolver_events_quiet[OF aborted(4)] show ?thesis by simp
next
  case (ran a cons st1 r1 st2)
  let ?nm = "TrimPrefix (methodName m) testMethodPrefix"
  from subTest_called_any[OF ran(6)] obtain evs where
    evs: "trace st2 = trace st1 @ EvRunStart ?nm # evs"
    "called evs = [] \<or> called evs = [(methodName m, SubT ?nm)]"
    by (auto simp: emit_def)
  note q = resolver_events_quiet[OF returned_construct_resolver_event[OF ran(2)]]
  from ran(7) consider "st' = st2" | "st' = emit (EvRunEnd ?nm) st2" by blast
  then have "\<exists>tl. trace st' = trace st @ cons @ EvRunStart ?nm # evs @ tl \<and> called tl = []"
  proof cases
    case 1
    with evs(1) ran(4) show ?thesis by (intro exI[of _ "[]"]) simp
  next
    case 2
    with evs(1) ran(4) show ?thesis by (intro exI[of _ "[EvRunEnd ?nm]"]) (simp add: emit_def)
  qed
  then obtain tl where "trace st' = trace st @ cons @ EvRunStart ?nm # evs @ tl" "called tl = []"
    by blast
  from news_eq[OF this(1)] this(2) evs(2) q ran(1) show ?thesis
    by (auto simp: subtest_name_def)
qed

lemma runMethods_called_any:
  "runMethods n C reg gt t ms st = Some (r, st') \<Longrightarrow>
   subseq (called (news st st'))
     (map (\<lambda>m. (methodName m, SubT (subtest_name m))) (test_cases ms))"
proof (induction ms arbitrary: st)
  case Nil
  then show ?case by simp
next
  case (Cons m ms)
  let ?f = "\<lambda>m. (methodName m, SubT (subtest_name m))"
  from Cons.prems obtain r1 st1 where
    step: "runMethod n C reg gt t m st = Some (r1, st1)"
    by (auto split: option.splits)
  note c1 = runMethod_called_any[OF step]
  have sp: "map ?f (test_cases (m # ms)) = map ?f (test_cases [m]) @ map ?f (test_cases ms)"
    by simp
  show ?case
  proof (cases r1)
    case (Inl a)
    with Cons.prems step have "st' = st1" by simp
    with c1 show ?thesis unfolding sp by (simp add: subseq_rev_drop_many)
  next
    case (Inr u)
    with Cons.prems step have rest: "runMethods n C reg gt t ms st1 = Some (r, st')" by simp
    from runMethods_summary[OF rest] have "trace st' = trace st1 @ news st1 st'" by simp
    from news_append[OF runMethod_summary(1)[OF step] this]
    have "news st st' = news st st1 @ news st1 st'" by simp
    with c1 Cons.IH[OF rest] show ?thesis unfolding sp
      by (simp add: list_emb_append_mono)
  qed
qed

text \<open>
  The trace of every run of a group: \<open>setup\<close> first, then the events of the test cases, then
  \<open>teardown\<close> if the loop came to its end.
\<close>

lemma RunSubTests_shape:
  assumes "RunSubTests n C reg gt u0 = Some (r, st)"
  shows "\<exists>s mid. \<not> list_ex is_group_hook mid \<and>
     prefix (started mid) (map subtest_name (test_cases (itypeMethods (gtType gt)))) \<and>
     subseq (called mid)
       (map (\<lambda>m. (methodName m, SubT (subtest_name m))) (test_cases (itypeMethods (gtType gt)))) \<and>
     (trace st = EvSetup GroupT s # mid \<and> r \<noteq> Inr () \<or>
      (\<exists>s'. trace st = EvSetup GroupT Return # mid @ [EvTeardown GroupT s'] \<and> s = Return \<and>
         started mid = map subtest_name (test_cases (itypeMethods (gtType gt))) \<and>
         r = (if s' = Goexit then Inl (Exited GroupT) else Inr ())))"
  using assms
proof (cases rule: RunSubTests_cases)
  case setupExit
  then show ?thesis by (intro exI[of _ Goexit] exI[of _ "[]"]) simp
next
  case (aborted a st1)
  from runMethods_summary[OF aborted(3)] runMethods_called_any[OF aborted(3)] aborted(1,2)
  show ?thesis by (intro exI[of _ Return] exI[of _ "news st1 st"]) simp
next
  case (finished st1 st2 s)
  from runMethods_summary[OF finished(2)] runMethods_called_any[OF finished(2)] finished(1,3,4)
  show ?thesis by (intro exI[of _ Return] exI[of _ "news st1 st2"]) simp
qed

section \<open>Registration\<close>

lemma validateConstruct_iff:
  "validateFixtureConstructMethod T = None \<longleftrightarrow> construct_contract T"
  by (auto simp: validateFixtureConstructMethod_def construct_contract_def NumIn_def NumOut_def
      In_def Let_def split: option.splits)

lemma validateDestruct_iff:
  "validateFixtureDestructMethod T = None \<longleftrightarrow> destruct_accepts T"
  by (auto simp: validateFixtureDestructMethod_def destruct_accepts_def NumIn_def
      In_def Let_def split: option.splits)

lemma validateConstruct_InvalidContract:
  "validateFixtureConstructMethod T = Some err \<Longrightarrow> InvalidContract err"
  by (auto simp: validateFixtureConstructMethod_def Let_def split: option.splits if_splits)

lemma validateDestruct_InvalidContract:
  "validateFixtureDestructMethod T = Some err \<Longrightarrow> InvalidContract err"
  by (auto simp: validateFixtureDestructMethod_def Let_def split: option.splits if_splits)

lemmas example_types =
  testingT_def emptyInterface_def stringType_def structOf_def fixtureType_def
  MethodByName_def TypeOf_def NumIn_def NumOut_def In_def Out_def

text \<open>
  C4, as amended. For a name that is not registered yet, registration succeeds exactly
  when the instance has a construct operation of the required shape and a destruct
  operation that accepts exactly an execution handle and an opaque context; otherwise it
  fails with an InvalidContract error and leaves the registry as it was. What the destruct
  operation returns is not inspected.
\<close>

theorem RegisterFixture_contract:
  assumes "registeredFixtures name = None"
  shows "case RegisterFixture registeredFixtures name f scope of
           (None, reg') \<Rightarrow>
             construct_contract (TypeOf f) \<and> destruct_accepts (TypeOf f) \<and>
             reg' = registeredFixtures(name \<mapsto> \<lparr>Scope = scope, Instance = f\<rparr>)
         | (Some err, reg') \<Rightarrow>
             InvalidContract err \<and> reg' = registeredFixtures \<and>
             \<not> (construct_contract (TypeOf f) \<and> destruct_accepts (TypeOf f))"
  using assms validateConstruct_iff[of "TypeOf f"] validateDestruct_iff[of "TypeOf f"]
  by (auto simp: RegisterFixture_def Let_def split: option.splits
      dest: validateConstruct_InvalidContract validateDestruct_InvalidContract)

theorem RegisterFixture_contract_witness:
  "(Map.empty :: registry) ''Foo'' = None \<and>
   RegisterFixture Map.empty ''Foo'' InvalidFixtureDestructInput ScopeCall =
     (Some (DestructNumIn ''InvalidFixtureDestructInput'' 1), Map.empty) \<and>
   InvalidContract (DestructNumIn ''InvalidFixtureDestructInput'' 1) \<and>
   \<not> destruct_accepts (TypeOf InvalidFixtureDestructInput)"
  using RegisterFixture_contract[of Map.empty "''Foo''" InvalidFixtureDestructInput ScopeCall]
  by (simp add: RegisterFixture_def validateFixtureConstructMethod_def
      validateFixtureDestructMethod_def InvalidFixtureDestructInput_def destruct_accepts_def
      example_types)

text \<open>
  C4, as stated, fails: a fixture whose destruct operation returns a value violates the
  destruct shape of the specification and is registered all the same.
\<close>

theorem RegisterFixture_destruct_result_counterexample:
  "\<not> destruct_contract (TypeOf DestructWithResult) \<and>
   RegisterFixture Map.empty ''Foo'' DestructWithResult ScopeCall =
     (None, [''Foo'' \<mapsto> \<lparr>Scope = ScopeCall, Instance = DestructWithResult\<rparr>])"
  by (simp add: RegisterFixture_def validateFixtureConstructMethod_def
      validateFixtureDestructMethod_def DestructWithResult_def destruct_contract_def
      destruct_accepts_def example_types)

text \<open>
  C6. A register call under a name that is already present fails with a DuplicateName
  error and returns the registry unchanged; the entry under that name is still the
  original one.
\<close>

theorem RegisterFixture_duplicate:
  assumes "registeredFixtures name = Some entry"
  shows "\<exists>err. RegisterFixture registeredFixtures name f scope = (Some err, registeredFixtures) \<and>
           DuplicateName err \<and>
           GetFixture (snd (RegisterFixture registeredFixtures name f scope)) name = Some entry"
  using assms by (simp add: RegisterFixture_def GetFixture_def)

theorem RegisterFixture_duplicate_witness:
  "[''UserId'' \<mapsto> \<lparr>Scope = ScopeCall, Instance = UserIdFixture\<rparr>] ''UserId'' =
     Some \<lparr>Scope = ScopeCall, Instance = UserIdFixture\<rparr> \<and>
   (\<exists>err. RegisterFixture [''UserId'' \<mapsto> \<lparr>Scope = ScopeCall, Instance = UserIdFixture\<rparr>]
            ''UserId'' UserIdFixture ScopeSubTest =
          (Some err, [''UserId'' \<mapsto> \<lparr>Scope = ScopeCall, Instance = UserIdFixture\<rparr>]) \<and>
      DuplicateName err \<and>
      GetFixture (snd (RegisterFixture
          [''UserId'' \<mapsto> \<lparr>Scope = ScopeCall, Instance = UserIdFixture\<rparr>]
          ''UserId'' UserIdFixture ScopeSubTest)) ''UserId'' =
        Some \<lparr>Scope = ScopeCall, Instance = UserIdFixture\<rparr>)"
  using RegisterFixture_duplicate[of
      "[''UserId'' \<mapsto> \<lparr>Scope = ScopeCall, Instance = UserIdFixture\<rparr>]" "''UserId''"
      "\<lparr>Scope = ScopeCall, Instance = UserIdFixture\<rparr>" UserIdFixture ScopeSubTest]
  by simp

section \<open>A reference to an unregistered fixture\<close>

text \<open>
  C3, as amended. For a dependency shape with a field whose tag names a fixture absent
  from the registry: no resolution of the shape succeeds; when the fields before that one
  can be resolved, the resolution ends with the UnregisteredFixture error, reported with
  \<^verbatim>\<open>t.Fatalf\<close> on the handle of the group; and a run of a group with a test case of this
  shape never completes: \<open>teardown\<close> is not called, and the only sub-units started are
  those of test cases before the affected one.
\<close>

theorem unregistered_fixture_aborts_group:
  assumes ty: "typeKind ty = Struct" "typeFields ty = pre @ fld # post"
    and fld: "fieldTag fld = TagFixture name" "reg name = None"
  shows
   "(\<forall>n caller st vals st'. resolve n C reg t ty caller st \<noteq> Some (Inr vals, st')) \<and>
    (resolvable k C reg pre \<and> constructs_return C \<longrightarrow>
       (\<exists>st'. resolve (Suc k) C reg t ty caller st =
            Some (Inl (Fatal (UnregisteredFixtureFound caller name)), st') \<and>
          UnregisteredFixture (UnregisteredFixtureFound caller name) \<and>
          last (trace st') = EvFatalf t (UnregisteredFixtureFound caller name))) \<and>
    (\<forall>gt before m after n u0 r st'.
       itypeMethods (gtType gt) = before @ m # after \<and>
       HasPrefix (methodName m) testMethodPrefix \<and> length (methodIn m) = 2 \<and> In m 2 = ty \<and>
       RunSubTests n C reg gt u0 = Some (r, st') \<longrightarrow>
       r \<noteq> Inr () \<and> \<not> list_ex is_teardown (trace st') \<and>
       prefix (started (trace st')) (map subtest_name (test_cases before)))"
proof -
  from ty(2) have fin: "fld \<in> set (typeFields ty)" by simp
  have A: "\<forall>n caller st vals st'. resolve n C reg t ty caller st \<noteq> Some (Inr vals, st')"
    using resolve_unregistered_never[where reg = reg, OF fin fld] by blast
  have B: "resolvable k C reg pre \<and> constructs_return C \<longrightarrow>
       (\<exists>st'. resolve (Suc k) C reg t ty caller st =
            Some (Inl (Fatal (UnregisteredFixtureFound caller name)), st') \<and>
          UnregisteredFixture (UnregisteredFixtureFound caller name) \<and>
          last (trace st') = EvFatalf t (UnregisteredFixtureFound caller name))"
    using resolve_unregistered_fatal[where reg = reg and k = k and C = C and t = t
      and caller = caller and st = st, OF ty fld]
    by auto
  have C: "r \<noteq> Inr () \<and> \<not> list_ex is_teardown (trace st') \<and>
       prefix (started (trace st')) (map subtest_name (test_cases before))"
    if a: "itypeMethods (gtType gt) = before @ m # after \<and>
       HasPrefix (methodName m) testMethodPrefix \<and> length (methodIn m) = 2 \<and> In m 2 = ty \<and>
       RunSubTests n C reg gt u0 = Some (r, st')"
    for gt :: "('a, 'b) GTest" and before m after n u0 r st'
  proof -
    from a have ms: "itypeMethods (gtType gt) = before @ m # after"
      and pm: "HasPrefix (methodName m) testMethodPrefix" and lm: "length (methodIn m) = 2"
      and tm: "In m 2 = ty" and run: "RunSubTests n C reg gt u0 = Some (r, st')" by simp_all
    text \<open>The iteration of \<open>m\<close> always ends the run, with events of the resolver only.\<close>
    have m_aborts: "\<exists>a evs. r1 = Inl a \<and> trace s1 = trace s @ evs \<and> list_all (resolver_event GroupT) evs"
      if "runMethod n C reg gt GroupT m s = Some (r1, s1)" for s r1 s1
      using that
    proof (cases rule: runMethod_cases)
      case skipped
      with pm show ?thesis by simp
    next
      case (aborted a evs)
      then show ?thesis by blast
    next
      case (ran a cons st1 r1' st2)
      from ran(8) lm tm obtain vals where
        "resolved C reg GroupT (typeFields ty) (reset s) vals st1" by auto
      from resolved_tags[OF this fin] fld show ?thesis by auto
    qed
    have from_m: "\<exists>a evs. r2 = Inl a \<and> trace s2 = trace s @ evs \<and>
        list_all (resolver_event GroupT) evs"
      if "runMethods n C reg gt GroupT (m # after) s = Some (r2, s2)" for s r2 s2
    proof -
      from that obtain r1 s1 where st: "runMethod n C reg gt GroupT m s = Some (r1, s1)"
        by (auto split: option.splits)
      from m_aborts[OF st] obtain a evs where "r1 = Inl a" "trace s1 = trace s @ evs"
        "list_all (resolver_event GroupT) evs" by blast
      with that st show ?thesis by auto
    qed
    have loop: "\<exists>a. r2 = Inl a \<and> trace s2 = trace s @ news s s2 \<and>
        \<not> list_ex is_group_hook (news s s2) \<and>
        prefix (started (news s s2)) (map subtest_name (test_cases before))"
      if rm: "runMethods n C reg gt GroupT (itypeMethods (gtType gt)) s = Some (r2, s2)"
      for s r2 s2
    proof -
      from rm ms obtain rb sb where
        b: "runMethods n C reg gt GroupT before s = Some (rb, sb)"
        by (auto simp: runMethods_append split: option.splits)
      note sb = runMethods_summary[OF b]
      show ?thesis
      proof (cases rb)
        case (Inl a)
        with rm ms b have "r2 = Inl a" "s2 = sb" by (auto simp: runMethods_append)
        with sb show ?thesis by simp
      next
        case (Inr u)
        with rm ms b have "runMethods n C reg gt GroupT (m # after) sb = Some (r2, s2)"
          by (auto simp: runMethods_append)
        from from_m[OF this] obtain a evs where e: "r2 = Inl a" "trace s2 = trace sb @ evs"
          "list_all (resolver_event GroupT) evs" by blast
        from sb e(2) have t: "trace s2 = trace s @ (news s sb @ evs)" by simp
        from news_eq[OF t] t e(1) sb Inr resolver_events_quiet[OF e(3)] show ?thesis by simp
      qed
    qed
    from run show "r \<noteq> Inr () \<and> \<not> list_ex is_teardown (trace st') \<and>
         prefix (started (trace st')) (map subtest_name (test_cases before))"
    proof (cases rule: RunSubTests_cases)
      case setupExit
      then show ?thesis by simp
    next
      case (aborted a st1)
      from loop[OF aborted(3)] aborted(1,2) is_teardown_group_hook[of "news st1 st'"]
      show ?thesis by auto
    next
      case (finished st1 st2 s)
      from loop[OF finished(2)] show ?thesis by simp
    qed
  qed
  from A B C show ?thesis by blast
qed

theorem unregistered_fixture_aborts_group_witness:
  "typeKind (In SubTestMissing 2) = Struct \<and>
   typeFields (In SubTestMissing 2) = [] @ fixtureField ''X'' ''string'' ''Nope'' # [] \<and>
   fieldTag (fixtureField ''X'' ''string'' ''Nope'') = TagFixture ''Nope'' \<and>
   exRegistry ''Nope'' = None \<and>
   resolvable 0 exCode exRegistry [] \<and> constructs_return exCode \<and>
   (\<exists>st'. resolve (Suc 0) exCode exRegistry GroupT (In SubTestMissing 2) ''SubTestMissing'' st0 =
        Some (Inl (Fatal (UnregisteredFixtureFound ''SubTestMissing'' ''Nope'')), st') \<and>
      last (trace st') = EvFatalf GroupT (UnregisteredFixtureFound ''SubTestMissing'' ''Nope'')) \<and>
   (\<exists>r st'. RunSubTests 2 exCode exRegistry (groupOf [SubTestMissing, SubTestRunTest] [])
        (0, []) = Some (r, st') \<and>
      r \<noteq> Inr () \<and> \<not> list_ex is_teardown (trace st') \<and>
      prefix (started (trace st'))
        (map subtest_name
          (test_cases [hookMethod ''AfterEach'', hookMethod ''BeforeEach'', hookMethod ''Setup''])))"
proof -
  let ?ty = "In SubTestMissing 2"
  let ?fld = "fixtureField ''X'' ''string'' ''Nope''"
  let ?gt = "groupOf [SubTestMissing, SubTestRunTest] [] :: (val, world) GTest"
  have h: "typeKind ?ty = Struct" "typeFields ?ty = [] @ ?fld # []"
    "fieldTag ?fld = TagFixture ''Nope''" "exRegistry ''Nope'' = None"
    by (simp_all add: SubTestMissing_def testMethod_def In_def structOf_def fixtureField_def
        exRegistry_def)
  note main = unregistered_fixture_aborts_group[where ty = ?ty and pre = "[]" and fld = ?fld
      and post = "[]" and name = "''Nope''" and reg = exRegistry and C = exCode and k = 0
      and t = GroupT and caller = "''SubTestMissing''" and st = st0, OF h]
  have r0: "resolvable 0 exCode exRegistry []" by simp
  have ms: "itypeMethods (gtType ?gt) =
      [hookMethod ''AfterEach'', hookMethod ''BeforeEach'', hookMethod ''Setup''] @
      SubTestMissing # [SubTestRunTest, hookMethod ''Teardown'']"
    by (simp add: groupOf_def)
  have pm: "HasPrefix (methodName SubTestMissing) testMethodPrefix"
    "length (methodIn SubTestMissing) = 2"
    by (simp_all add: SubTestMissing_def testMethod_def HasPrefix_def testMethodPrefix_def)
  have "map_option (trace \<circ> snd) (RunSubTests 2 exCode exRegistry ?gt (0, [])) =
      Some [EvSetup GroupT Return,
        EvFatalf GroupT (UnregisteredFixtureFound ''SubTestMissing'' ''Nope'')]"
    by code_simp
  then obtain r st' where run: "RunSubTests 2 exCode exRegistry ?gt (0, []) = Some (r, st')"
    by (cases "RunSubTests 2 exCode exRegistry ?gt (0, [])") auto
  from main r0 exCode_constructs_return have
    B: "\<exists>st'. resolve (Suc 0) exCode exRegistry GroupT ?ty ''SubTestMissing'' st0 =
        Some (Inl (Fatal (UnregisteredFixtureFound ''SubTestMissing'' ''Nope'')), st') \<and>
      last (trace st') = EvFatalf GroupT (UnregisteredFixtureFound ''SubTestMissing'' ''Nope'')"
    by blast
  from main ms pm run have
    "r \<noteq> Inr () \<and> \<not> list_ex is_teardown (trace st') \<and>
      prefix (started (trace st'))
        (map subtest_name
          (test_cases [hookMethod ''AfterEach'', hookMethod ''BeforeEach'', hookMethod ''Setup'']))"
    by blast
  with run have
    C: "\<exists>r st'. RunSubTests 2 exCode exRegistry ?gt (0, []) = Some (r, st') \<and>
      r \<noteq> Inr () \<and> \<not> list_ex is_teardown (trace st') \<and>
      prefix (started (trace st'))
        (map subtest_name
          (test_cases [hookMethod ''AfterEach'', hookMethod ''BeforeEach'', hookMethod ''Setup'']))"
    by blast
  from h r0 exCode_constructs_return B C show ?thesis by (intro conjI)
qed

text \<open>
  C3, as stated, fails: a group whose first test case names an unregistered fixture and
  whose second test case needs no fixture. The run ends with the fatal error on the
  group's handle: the sibling is never started and \<open>teardown\<close> is never called.
\<close>

theorem unregistered_fixture_counterexample:
  "map_option fst
     (RunSubTests 2 exCode exRegistry (groupOf [SubTestMissing, SubTestRunTest] []) (0, [])) =
   Some (Inl (Fatal (UnregisteredFixtureFound ''SubTestMissing'' ''Nope''))) \<and>
   map_option (trace \<circ> snd)
     (RunSubTests 2 exCode exRegistry (groupOf [SubTestMissing, SubTestRunTest] []) (0, [])) =
   Some [EvSetup GroupT Return,
     EvFatalf GroupT (UnregisteredFixtureFound ''SubTestMissing'' ''Nope'')]"
  by code_simp

section \<open>When the cleanup actions run\<close>

text \<open>
  C5, as amended. In the loop iteration of a test case, with a registry built by
  \<open>RegisterFixture\<close> and destruct operations that return: when the case body returns
  (with or without a failure recorded on its handle), the iteration's trace is the
  constructions, the start of the sub-unit, \<open>beforeEach\<close>, the body, then one \<^verbatim>\<open>Destruct\<close>
  for each construction, in the order of the constructions, then \<open>afterEach\<close>, then the
  end of the sub-unit. When the case body ends its goroutine (\<^verbatim>\<open>t.FailNow\<close>, \<^verbatim>\<open>t.Fatal\<close>),
  the sub-unit ends right after the body: no cleanup action and no \<open>afterEach\<close> run.
\<close>

theorem cleanups_after_returning_body:
  assumes run: "runMethod n C reg gt t m st = Some (r, st')"
    and dr: "destructs_return C"
    and dv: "registry_valid reg"
  shows
   "(EvMethod name h args Return \<in> set (news st st') \<longrightarrow>
       (\<exists>cons s. list_all (returned_construct t) cons \<and>
          news st st' = cons @
            [EvRunStart (TrimPrefix (methodName m) testMethodPrefix),
             EvBeforeEach (SubT (TrimPrefix (methodName m) testMethodPrefix)) Return,
             EvMethod (methodName m) (SubT (TrimPrefix (methodName m) testMethodPrefix)) args
               Return] @
            map (destruct_event Return) (cleanups_from cons) @
            [EvAfterEach (SubT (TrimPrefix (methodName m) testMethodPrefix)) s,
             EvRunEnd (TrimPrefix (methodName m) testMethodPrefix)])) \<and>
    (EvMethod name h args Goexit \<in> set (news st st') \<longrightarrow>
       (\<exists>cons. list_all (returned_construct t) cons \<and>
          news st st' = cons @
            [EvRunStart (TrimPrefix (methodName m) testMethodPrefix),
             EvBeforeEach (SubT (TrimPrefix (methodName m) testMethodPrefix)) Return,
             EvMethod (methodName m) (SubT (TrimPrefix (methodName m) testMethodPrefix)) args
               Goexit,
             EvRunEnd (TrimPrefix (methodName m) testMethodPrefix)]))"
proof -
  let ?nm = "TrimPrefix (methodName m) testMethodPrefix"
  let ?h = "SubT ?nm"
  from run show ?thesis
  proof (cases rule: runMethod_cases)
    case skipped
    then show ?thesis by (simp add: news_def)
  next
    case (aborted a evs)
    from news_eq[OF aborted(3)] method_not_resolver_event[OF aborted(4)] show ?thesis by simp
  next
    case (ran a cons st1 r1 st2)
    from cleanups_from_registered[OF ran(3)] dv
    have valid: "\<forall>cb\<in>set (cleanups_from cons).
        validateFixtureDestructMethod (TypeOf (cbF cb)) = None"
      by (auto simp: registry_valid_def)
    let ?s1 = "emit (EvRunStart ?nm) st1"
    have t1: "trace ?s1 = trace st @ cons @ [EvRunStart ?nm]"
      using ran(4) by (simp add: emit_def)
    note nm = method_not_resolver_event[OF returned_construct_resolver_event[OF ran(2)]]
    from subTest_trace[OF ran(6)] consider
      (noBefore) "r1 = Inl (Exited ?h)" "trace st2 = trace ?s1 @ [EvBeforeEach ?h Goexit]"
    | (failed) "r1 = Inl (Exited ?h)"
        "trace st2 = trace ?s1 @ [EvBeforeEach ?h Return, EvMethod (methodName m) ?h a Goexit]"
    | (returned) s2 rc st3 where
        "trace s2 = trace ?s1 @ [EvBeforeEach ?h Return, EvMethod (methodName m) ?h a Return]"
        "runCleanUpCbs C (cleanups_from cons) s2 = (rc, st3)"
        "(\<exists>x. rc = Inl x \<and> r1 = Inl x \<and> st2 = st3) \<or>
         (rc = Inr () \<and> (\<exists>sig. trace st2 = trace st3 @ [EvAfterEach ?h sig] \<and>
             r1 = (if sig = Goexit then Inl (Exited ?h) else Inr ())))"
      by blast
    then show ?thesis
    proof cases
      case noBefore
      with ran(7) have "st' = emit (EvRunEnd ?nm) st2" by auto
      with noBefore t1 have "trace st' = trace st @ cons @
          [EvRunStart ?nm, EvBeforeEach ?h Goexit, EvRunEnd ?nm]"
        by (auto simp: emit_def)
      from news_eq[OF this] nm show ?thesis by auto
    next
      case failed
      with ran(7) have "st' = emit (EvRunEnd ?nm) st2" by auto
      with failed t1 have "trace st' = trace st @ cons @
          [EvRunStart ?nm, EvBeforeEach ?h Return, EvMethod (methodName m) ?h a Goexit,
           EvRunEnd ?nm]"
        by (auto simp: emit_def)
      from news_eq[OF this] nm ran(2) show ?thesis by auto
    next
      case (returned s2 rc st3)
      from runCleanUpCbs_returns[OF dr valid, of s2] returned(2) have
        rc: "rc = Inr ()" "trace st3 = trace s2 @ map (destruct_event Return) (cleanups_from cons)"
        by auto
      with returned(3) obtain sig where
        sig: "trace st2 = trace st3 @ [EvAfterEach ?h sig]"
        "r1 = (if sig = Goexit then Inl (Exited ?h) else Inr ())" by auto
      then have "r1 = Inr () \<or> r1 = Inl (Exited ?h)" by auto
      with ran(7) have "st' = emit (EvRunEnd ?nm) st2" by auto
      with sig rc returned(1) t1 have "trace st' = trace st @ cons @
          [EvRunStart ?nm, EvBeforeEach ?h Return, EvMethod (methodName m) ?h a Return] @
          map (destruct_event Return) (cleanups_from cons) @
          [EvAfterEach ?h sig, EvRunEnd ?nm]"
        by (auto simp: emit_def)
      from news_eq[OF this] nm ran(2) show ?thesis by (auto simp: destruct_event_def)
    qed
  qed
qed

theorem cleanups_after_returning_body_witness:
  "destructs_return exCode \<and> registry_valid exRegistry \<and>
   (\<exists>r st'. runMethod 3 exCode exRegistry (groupOf [SubTestNested] []) GroupT SubTestNested st0 =
        Some (r, st') \<and>
      EvMethod ''SubTestNested'' (SubT ''Nested'') (Some [(''User'', MockUser (UserId 1))])
        Return \<in> set (news st0 st') \<and>
      (\<exists>cons s. list_all (returned_construct GroupT) cons \<and>
          news st0 st' = cons @
            [EvRunStart (TrimPrefix (methodName SubTestNested) testMethodPrefix),
             EvBeforeEach (SubT (TrimPrefix (methodName SubTestNested) testMethodPrefix)) Return,
             EvMethod (methodName SubTestNested)
               (SubT (TrimPrefix (methodName SubTestNested) testMethodPrefix))
               (Some [(''User'', MockUser (UserId 1))]) Return] @
            map (destruct_event Return) (cleanups_from cons) @
            [EvAfterEach (SubT (TrimPrefix (methodName SubTestNested) testMethodPrefix)) s,
             EvRunEnd (TrimPrefix (methodName SubTestNested) testMethodPrefix)])) \<and>
   (\<exists>r st'. runMethod 2 exCode exRegistry (groupOf [SubTestFailNow] [''SubTestFailNow''])
        GroupT SubTestFailNow st0 = Some (r, st') \<and>
      EvMethod ''SubTestFailNow'' (SubT ''FailNow'') (Some [(''Dir'', Dir 1)]) Goexit
        \<in> set (news st0 st') \<and>
      (\<exists>cons. list_all (returned_construct GroupT) cons \<and>
          news st0 st' = cons @
            [EvRunStart (TrimPrefix (methodName SubTestFailNow) testMethodPrefix),
             EvBeforeEach (SubT (TrimPrefix (methodName SubTestFailNow) testMethodPrefix)) Return,
             EvMethod (methodName SubTestFailNow)
               (SubT (TrimPrefix (methodName SubTestFailNow) testMethodPrefix))
               (Some [(''Dir'', Dir 1)]) Goexit,
             EvRunEnd (TrimPrefix (methodName SubTestFailNow) testMethodPrefix)]))"
proof -
  have "map_option (trace \<circ> snd)
      (runMethod 3 exCode exRegistry (groupOf [SubTestNested] []) GroupT SubTestNested st0) =
    Some [EvConstruct GroupT UserIdFixture [] (Returns (UserId 1) Nil),
      EvConstruct GroupT MockUserFixture [(''UserId'', UserId 1)]
        (Returns (MockUser (UserId 1)) Nil),
      EvRunStart ''Nested'', EvBeforeEach (SubT ''Nested'') Return,
      EvMethod ''SubTestNested'' (SubT ''Nested'') (Some [(''User'', MockUser (UserId 1))])
        Return,
      EvDestruct GroupT UserIdFixture Nil Return,
      EvDestruct GroupT MockUserFixture Nil Return,
      EvAfterEach (SubT ''Nested'') Return, EvRunEnd ''Nested'']"
    by code_simp
  then obtain r1 s1 where
    run1: "runMethod 3 exCode exRegistry (groupOf [SubTestNested] []) GroupT SubTestNested st0 =
      Some (r1, s1)"
    and in1: "EvMethod ''SubTestNested'' (SubT ''Nested'')
      (Some [(''User'', MockUser (UserId 1))]) Return \<in> set (news st0 s1)"
    by (cases "runMethod 3 exCode exRegistry (groupOf [SubTestNested] []) GroupT
        SubTestNested st0") (auto simp: news_def st0_def)
  have "map_option (trace \<circ> snd)
      (runMethod 2 exCode exRegistry (groupOf [SubTestFailNow] [''SubTestFailNow'']) GroupT
         SubTestFailNow st0) =
    Some [EvConstruct GroupT TmpDirFixture [] (Returns (Dir 1) (Dir 1)),
      EvRunStart ''FailNow'', EvBeforeEach (SubT ''FailNow'') Return,
      EvMethod ''SubTestFailNow'' (SubT ''FailNow'') (Some [(''Dir'', Dir 1)]) Goexit,
      EvRunEnd ''FailNow'']"
    by code_simp
  then obtain r2 s2 where
    run2: "runMethod 2 exCode exRegistry (groupOf [SubTestFailNow] [''SubTestFailNow''])
      GroupT SubTestFailNow st0 = Some (r2, s2)"
    and in2: "EvMethod ''SubTestFailNow'' (SubT ''FailNow'') (Some [(''Dir'', Dir 1)]) Goexit
      \<in> set (news st0 s2)"
    by (cases "runMethod 2 exCode exRegistry (groupOf [SubTestFailNow] [''SubTestFailNow''])
        GroupT SubTestFailNow st0") (auto simp: news_def st0_def)
  note c1 = cleanups_after_returning_body[OF run1 exCode_destructs_return exRegistry_valid,
      of "''SubTestNested''" "SubT ''Nested''" "Some [(''User'', MockUser (UserId 1))]"]
  note c2 = cleanups_after_returning_body[OF run2 exCode_destructs_return exRegistry_valid,
      of "''SubTestFailNow''" "SubT ''FailNow''" "Some [(''Dir'', Dir 1)]"]
  from c1 in1 have a: "\<exists>cons s. list_all (returned_construct GroupT) cons \<and>
          news st0 s1 = cons @
            [EvRunStart (TrimPrefix (methodName SubTestNested) testMethodPrefix),
             EvBeforeEach (SubT (TrimPrefix (methodName SubTestNested) testMethodPrefix)) Return,
             EvMethod (methodName SubTestNested)
               (SubT (TrimPrefix (methodName SubTestNested) testMethodPrefix))
               (Some [(''User'', MockUser (UserId 1))]) Return] @
            map (destruct_event Return) (cleanups_from cons) @
            [EvAfterEach (SubT (TrimPrefix (methodName SubTestNested) testMethodPrefix)) s,
             EvRunEnd (TrimPrefix (methodName SubTestNested) testMethodPrefix)]"
    by (rule mp[OF conjunct1])
  from c2 in2 have b: "\<exists>cons. list_all (returned_construct GroupT) cons \<and>
          news st0 s2 = cons @
            [EvRunStart (TrimPrefix (methodName SubTestFailNow) testMethodPrefix),
             EvBeforeEach (SubT (TrimPrefix (methodName SubTestFailNow) testMethodPrefix)) Return,
             EvMethod (methodName SubTestFailNow)
               (SubT (TrimPrefix (methodName SubTestFailNow) testMethodPrefix))
               (Some [(''Dir'', Dir 1)]) Goexit,
             EvRunEnd (TrimPrefix (methodName SubTestFailNow) testMethodPrefix)]"
    by (rule mp[OF conjunct2])
  from run1 in1 a have A: "\<exists>r st'. runMethod 3 exCode exRegistry (groupOf [SubTestNested] [])
        GroupT SubTestNested st0 = Some (r, st') \<and>
      EvMethod ''SubTestNested'' (SubT ''Nested'') (Some [(''User'', MockUser (UserId 1))])
        Return \<in> set (news st0 st') \<and>
      (\<exists>cons s. list_all (returned_construct GroupT) cons \<and>
          news st0 st' = cons @
            [EvRunStart (TrimPrefix (methodName SubTestNested) testMethodPrefix),
             EvBeforeEach (SubT (TrimPrefix (methodName SubTestNested) testMethodPrefix)) Return,
             EvMethod (methodName SubTestNested)
               (SubT (TrimPrefix (methodName SubTestNested) testMethodPrefix))
               (Some [(''User'', MockUser (UserId 1))]) Return] @
            map (destruct_event Return) (cleanups_from cons) @
            [EvAfterEach (SubT (TrimPrefix (methodName SubTestNested) testMethodPrefix)) s,
             EvRunEnd (TrimPrefix (methodName SubTestNested) testMethodPrefix)])"
    by (intro exI[of _ r1] exI[of _ s1] conjI)
  from run2 in2 b have B: "\<exists>r st'. runMethod 2 exCode exRegistry
        (groupOf [SubTestFailNow] [''SubTestFailNow'']) GroupT SubTestFailNow st0 =
          Some (r, st') \<and>
      EvMethod ''SubTestFailNow'' (SubT ''FailNow'') (Some [(''Dir'', Dir 1)]) Goexit
        \<in> set (news st0 st') \<and>
      (\<exists>cons. list_all (returned_construct GroupT) cons \<and>
          news st0 st' = cons @
            [EvRunStart (TrimPrefix (methodName SubTestFailNow) testMethodPrefix),
             EvBeforeEach (SubT (TrimPrefix (methodName SubTestFailNow) testMethodPrefix)) Return,
             EvMethod (methodName SubTestFailNow)
               (SubT (TrimPrefix (methodName SubTestFailNow) testMethodPrefix))
               (Some [(''Dir'', Dir 1)]) Goexit,
             EvRunEnd (TrimPrefix (methodName SubTestFailNow) testMethodPrefix)])"
    by (intro exI[of _ r2] exI[of _ s2] conjI)
  from exCode_destructs_return exRegistry_valid A B show ?thesis
    by (intro conjI)
qed

text \<open>
  C5, as stated, fails: a test case whose fixture was constructed and whose body fails
  with \<^verbatim>\<open>t.FailNow()\<close>. The sub-unit ends with the body; the directory's \<^verbatim>\<open>Destruct\<close> is
  never called and \<open>afterEach\<close> does not run.
\<close>

theorem failing_body_skips_cleanup_counterexample:
  "map_option (trace \<circ> snd)
     (RunSubTests 2 exCode exRegistry (groupOf [SubTestFailNow] [''SubTestFailNow'']) (0, [])) =
   Some [EvSetup GroupT Return,
     EvConstruct GroupT TmpDirFixture [] (Returns (Dir 1) (Dir 1)),
     EvRunStart ''FailNow'', EvBeforeEach (SubT ''FailNow'') Return,
     EvMethod ''SubTestFailNow'' (SubT ''FailNow'') (Some [(''Dir'', Dir 1)]) Goexit,
     EvRunEnd ''FailNow'',
     EvTeardown GroupT Return]"
  by code_simp

section \<open>Where the constructions of a test case run\<close>





section \<open>Setup and teardown of the group\<close>

text \<open>
  C7, as amended. In every run of a group, \<open>setup\<close> is called exactly once, as the first
  event, and \<open>teardown\<close> at most once: when it is called, it is the last event, and a sub-unit
  has been started for every test case before it; a run without \<open>teardown\<close> did not end by
  returning. And \<open>teardown\<close> is called in every run that is not cut short on the handle of the
  group: when \<open>setup\<close> returns, the test cases have well-formed signatures and resolvable
  dependency shapes, and the construct and destruct operations of the fixtures return.
  Nothing is assumed there of the test methods, of \<open>beforeEach\<close> and of \<open>afterEach\<close>: a
  fatal failure of theirs ends their sub-unit only.
\<close>

theorem setup_once_teardown_once:
  fixes gt :: "('v, 's) GTest"
  shows
   "(\<forall>n r st. RunSubTests n C reg gt u0 = Some (r, st) \<longrightarrow>
       (\<exists>s mid. \<not> list_ex is_group_hook mid \<and>
          (trace st = EvSetup GroupT s # mid \<and> r \<noteq> Inr () \<or>
           (\<exists>s'. trace st = EvSetup GroupT Return # mid @ [EvTeardown GroupT s'] \<and>
              started mid = map subtest_name (test_cases (itypeMethods (gtType gt))))))) \<and>
    (fst (Setup gt GroupT u0) = Return \<and>
     (\<forall>m\<in>set (test_cases (itypeMethods (gtType gt))). runnable k C reg m) \<and>
     constructs_return C \<and> destructs_return C \<and> registry_valid reg \<longrightarrow>
     (\<exists>r st mid s. RunSubTests (Suc k) C reg gt u0 = Some (r, st) \<and>
        trace st = EvSetup GroupT Return # mid @ [EvTeardown GroupT s] \<and>
        \<not> list_ex is_group_hook mid \<and>
        started mid = map subtest_name (test_cases (itypeMethods (gtType gt)))))"
proof -
  let ?ms = "itypeMethods (gtType gt)"
  have U: "\<exists>s mid. \<not> list_ex is_group_hook mid \<and>
          (trace st = EvSetup GroupT s # mid \<and> r \<noteq> Inr () \<or>
           (\<exists>s'. trace st = EvSetup GroupT Return # mid @ [EvTeardown GroupT s'] \<and>
              started mid = map subtest_name (test_cases ?ms)))"
    if run: "RunSubTests n C reg gt u0 = Some (r, st)" for n r st
  proof -
    from RunSubTests_shape[OF run] obtain s mid where
      q: "\<not> list_ex is_group_hook mid"
      and d: "trace st = EvSetup GroupT s # mid \<and> r \<noteq> Inr () \<or>
        (\<exists>s'. trace st = EvSetup GroupT Return # mid @ [EvTeardown GroupT s'] \<and> s = Return \<and>
           started mid = map subtest_name (test_cases ?ms) \<and>
           r = (if s' = Goexit then Inl (Exited GroupT) else Inr ()))"
      by blast
    from d have "trace st = EvSetup GroupT s # mid \<and> r \<noteq> Inr () \<or>
        (\<exists>s'. trace st = EvSetup GroupT Return # mid @ [EvTeardown GroupT s'] \<and>
           started mid = map subtest_name (test_cases ?ms))" by blast
    with q show ?thesis by blast
  qed
  have T: "\<exists>r st mid s. RunSubTests (Suc k) C reg gt u0 = Some (r, st) \<and>
        trace st = EvSetup GroupT Return # mid @ [EvTeardown GroupT s] \<and>
        \<not> list_ex is_group_hook mid \<and>
        started mid = map subtest_name (test_cases ?ms)"
    if h: "fst (Setup gt GroupT u0) = Return \<and>
     (\<forall>m\<in>set (test_cases ?ms). runnable k C reg m) \<and>
     constructs_return C \<and> destructs_return C \<and> registry_valid reg"
    using h by (intro RunSubTests_completes) simp_all
  from U T show ?thesis by blast
qed

theorem setup_once_teardown_once_witness:
  "fst (Setup exGroup GroupT (0, [])) = Return \<and>
   list_all (runnable 2 exCode exRegistry) (test_cases (itypeMethods (gtType exGroup))) \<and>
   constructs_return exCode \<and> destructs_return exCode \<and> registry_valid exRegistry \<and>
   fst (CallMethod exGroup
         ''SubTestFailNow'' (SubT ''FailNow'') None (0, [])) = Goexit \<and>
   (\<exists>r st mid s.
      RunSubTests (Suc 2) exCode exRegistry
        exGroup (0, []) = Some (r, st) \<and>
      trace st = EvSetup GroupT Return # mid @ [EvTeardown GroupT s] \<and>
      \<not> list_ex is_group_hook mid \<and>
      started mid = map subtest_name (test_cases (itypeMethods (gtType exGroup))))"
proof -
  let ?G = "exGroup"
  have s: "fst (Setup ?G GroupT (0, [])) = Return"
    and f: "fst (CallMethod ?G ''SubTestFailNow'' (SubT ''FailNow'') None (0, [])) = Goexit"
    by (simp_all add: exGroup_def groupOf_def)
  note main = setup_once_teardown_once[of exCode exRegistry ?G "(0, [])" 2,
      THEN conjunct2, rule_format]
  have "\<exists>r st mid s.
      RunSubTests (Suc 2) exCode exRegistry ?G (0, []) = Some (r, st) \<and>
      trace st = EvSetup GroupT Return # mid @ [EvTeardown GroupT s] \<and>
      \<not> list_ex is_group_hook mid \<and>
      started mid = map subtest_name (test_cases (itypeMethods (gtType ?G)))"
    by (rule main) (intro conjI s exGroup_runnable exCode_constructs_return
        exCode_destructs_return exRegistry_valid)
  with s f exGroup_runnable_all exCode_constructs_return exCode_destructs_return
    exRegistry_valid
  show ?thesis by (intro conjI)
qed

text \<open>
  C7, as stated, fails. A group of two returning test cases, the first with a fixture: when
  the \<^verbatim>\<open>Construct\<close> of the fixture reports a fatal failure, and when its \<^verbatim>\<open>Destruct\<close> does,
  the run ends with that call or that sub-unit; the second test case is not started and
  \<open>teardown\<close> is never called.
\<close>

theorem teardown_skipped_counterexample:
  "map subtest_name (test_cases (itypeMethods (gtType exGroupTwo))) = [''Nested'', ''RunTest''] \<and>
   map_option (\<lambda>p. (fst p, trace (snd p)))
     (RunSubTests 3 exCodeConstructFails exRegistry exGroupTwo (0, [])) =
   Some (Inl (Exited GroupT),
     [EvSetup GroupT Return, EvConstruct GroupT UserIdFixture [] NoReturn]) \<and>
   map_option (\<lambda>p. (fst p, trace (snd p)))
     (RunSubTests 3 exCodeDestructFails exRegistry exGroupTwo (0, [])) =
   Some (Inl (Exited GroupT),
     [EvSetup GroupT Return,
      EvConstruct GroupT UserIdFixture [] (Returns (UserId 1) Nil),
      EvConstruct GroupT MockUserFixture [(''UserId'', UserId 1)]
        (Returns (MockUser (UserId 1)) Nil),
      EvRunStart ''Nested'', EvBeforeEach (SubT ''Nested'') Return,
      EvMethod ''SubTestNested'' (SubT ''Nested'') (Some [(''User'', MockUser (UserId 1))])
        Return,
      EvDestruct GroupT UserIdFixture Nil Goexit, EvRunEnd ''Nested''])"
  by code_simp
section \<open>Which methods are test cases\<close>

text \<open>
  C9, as amended. Removing from the group's type the methods whose names do not start with
  \<^verbatim>\<open>SubTest\<close> changes nothing that can be observed of a run (how it ends, the user
  state, the trace): they are ignored entirely. In every run, the sub-units started are
  named by the methods whose names have the prefix, with the prefix stripped, in the order
  of the methods and without a gap, up to the point the run has reached; and the methods
  called are among those, in that order, each with the handle of its sub-unit. A run that
  is not cut short on the handle of the group (\<open>setup\<close> returns, the test cases are runnable,
  the construct and destruct operations return) starts a sub-unit for every one of them;
  when \<open>beforeEach\<close> returns, the methods called are exactly those.
\<close>

theorem test_cases_by_prefix:
  fixes gt :: "('v, 's) GTest"
  shows
   "observe (RunSubTests n C reg gt u0) =
    observe (RunSubTests n C reg
      (gt\<lparr>gtType := (gtType gt)\<lparr>itypeMethods := test_cases (itypeMethods (gtType gt))\<rparr>\<rparr>) u0) \<and>
    (\<forall>r st. RunSubTests n C reg gt u0 = Some (r, st) \<longrightarrow>
       prefix (started (trace st))
         (map subtest_name (test_cases (itypeMethods (gtType gt)))) \<and>
       subseq (called (trace st))
         (map (\<lambda>m. (methodName m, SubT (subtest_name m)))
            (test_cases (itypeMethods (gtType gt))))) \<and>
    (fst (Setup gt GroupT u0) = Return \<and>
     (\<forall>m\<in>set (test_cases (itypeMethods (gtType gt))). runnable k C reg m) \<and>
     constructs_return C \<and> destructs_return C \<and> registry_valid reg \<longrightarrow>
     (\<exists>r st. RunSubTests (Suc k) C reg gt u0 = Some (r, st) \<and>
        started (trace st) = map subtest_name (test_cases (itypeMethods (gtType gt))) \<and>
        ((\<forall>h u. fst (BeforeEach gt h u) = Return) \<longrightarrow>
         called (trace st) =
           map (\<lambda>m. (methodName m, SubT (subtest_name m)))
             (test_cases (itypeMethods (gtType gt))))))"
proof -
  let ?ms = "itypeMethods (gtType gt)"
  let ?gt' = "gt\<lparr>gtType := (gtType gt)\<lparr>itypeMethods := test_cases ?ms\<rparr>\<rparr>"
  let ?st0 = "\<lparr>Resolved = Map.empty, cleanUpCbs = [], user = u0, trace = []\<rparr> :: ('v, 's) state"
  have A: "observe (RunSubTests n C reg gt u0) = observe (RunSubTests n C reg ?gt' u0)"
  proof -
    have "observe (runMethods n C reg ?gt' GroupT (itypeMethods (gtType ?gt')) s) =
        observe (runMethods n C reg gt GroupT ?ms s)" for s
      using runMethods_test_cases[of s s n C reg gt GroupT ?ms]
      by (simp add: runMethods_gtType)
    then show ?thesis
      by (simp add: RunSubTests_observe
          split: prod.splits signal.splits option.splits sum.splits)
  qed
  have U: "prefix (started (trace st)) (map subtest_name (test_cases ?ms)) \<and>
       subseq (called (trace st))
         (map (\<lambda>m. (methodName m, SubT (subtest_name m))) (test_cases ?ms))"
    if run: "RunSubTests n C reg gt u0 = Some (r, st)" for r st
  proof -
    from RunSubTests_shape[OF run] obtain s mid where
      p: "prefix (started mid) (map subtest_name (test_cases ?ms))"
      and c: "subseq (called mid)
        (map (\<lambda>m. (methodName m, SubT (subtest_name m))) (test_cases ?ms))"
      and d: "trace st = EvSetup GroupT s # mid \<or>
        (\<exists>s'. trace st = EvSetup GroupT Return # mid @ [EvTeardown GroupT s'])"
      by blast
    from d show ?thesis
    proof
      assume "trace st = EvSetup GroupT s # mid"
      with p c show ?thesis by simp
    next
      assume "\<exists>s'. trace st = EvSetup GroupT Return # mid @ [EvTeardown GroupT s']"
      then obtain s' where "trace st = EvSetup GroupT Return # mid @ [EvTeardown GroupT s']"
        by blast
      with p c show ?thesis by simp
    qed
  qed
  have B: "\<exists>r st. RunSubTests (Suc k) C reg gt u0 = Some (r, st) \<and>
        started (trace st) = map subtest_name (test_cases ?ms) \<and>
        ((\<forall>h u. fst (BeforeEach gt h u) = Return) \<longrightarrow>
         called (trace st) =
           map (\<lambda>m. (methodName m, SubT (subtest_name m))) (test_cases ?ms))"
    if h: "fst (Setup gt GroupT u0) = Return \<and>
     (\<forall>m\<in>set (test_cases ?ms). runnable k C reg m) \<and>
     constructs_return C \<and> destructs_return C \<and> registry_valid reg"
  proof -
    from h RunSubTests_completes[of gt u0 k C reg] obtain r st mid s where
      run: "RunSubTests (Suc k) C reg gt u0 = Some (r, st)"
      and tr: "trace st = EvSetup GroupT Return # mid @ [EvTeardown GroupT s]"
      and sm: "started mid = map subtest_name (test_cases ?ms)"
      by blast
    from tr sm have st: "started (trace st) = map subtest_name (test_cases ?ms)" by simp
    have "called (trace st) = map (\<lambda>m. (methodName m, SubT (subtest_name m))) (test_cases ?ms)"
      if be: "\<forall>h u. fst (BeforeEach gt h u) = Return"
      using run
    proof (cases rule: RunSubTests_cases)
      case setupExit
      with tr show ?thesis by simp
    next
      case (aborted a st1)
      from runMethods_summary[OF aborted(3)] aborted(2) tr
      have "news st1 st = mid @ [EvTeardown GroupT s]" by simp
      with runMethods_summary[OF aborted(3)] show ?thesis by simp
    next
      case (finished st1 st2 s')
      from runMethods_summary[OF finished(2)] have
        t2: "trace st2 = trace st1 @ news st1 st2" by simp
      from runMethods_called[OF be finished(2)] t2 finished(1,3)
      show ?thesis by simp
    qed
    with run st show ?thesis by blast
  qed
  from A U B show ?thesis by blast
qed

theorem test_cases_by_prefix_witness:
  "fst (Setup exGroup GroupT (0, [])) = Return \<and>
   list_all (runnable 2 exCode exRegistry) (test_cases (itypeMethods (gtType exGroup))) \<and>
   constructs_return exCode \<and> destructs_return exCode \<and> registry_valid exRegistry \<and>
   (\<forall>h u. fst (BeforeEach exGroup h u) = Return) \<and>
   map subtest_name (test_cases (itypeMethods (gtType exGroup))) =
     [''FailNow'', ''Nested''] \<and>
   (\<exists>r st.
      RunSubTests (Suc 2) exCode exRegistry
        exGroup (0, []) = Some (r, st) \<and>
      started (trace st) = [''FailNow'', ''Nested''] \<and>
      called (trace st) =
        [(''SubTestFailNow'', SubT ''FailNow''), (''SubTestNested'', SubT ''Nested'')])"
proof -
  let ?G = "exGroup"
  have s: "fst (Setup ?G GroupT (0, [])) = Return"
    and b: "\<forall>h u. fst (BeforeEach ?G h u) = Return"
    by (simp_all add: exGroup_def groupOf_def)
  have n: "map subtest_name (test_cases (itypeMethods (gtType ?G))) = [''FailNow'', ''Nested'']"
    by code_simp
  have c: "map (\<lambda>m. (methodName m, SubT (subtest_name m))) (test_cases (itypeMethods (gtType ?G))) =
      [(''SubTestFailNow'', SubT ''FailNow''), (''SubTestNested'', SubT ''Nested'')]"
    by code_simp
  note main = test_cases_by_prefix[of 3 exCode exRegistry ?G "(0, [])" 2,
      THEN conjunct2, THEN conjunct2, THEN mp]
  have "\<exists>r st. RunSubTests (Suc 2) exCode exRegistry ?G (0, []) = Some (r, st) \<and>
      started (trace st) = map subtest_name (test_cases (itypeMethods (gtType ?G))) \<and>
      ((\<forall>h u. fst (BeforeEach ?G h u) = Return) \<longrightarrow>
       called (trace st) =
         map (\<lambda>m. (methodName m, SubT (subtest_name m))) (test_cases (itypeMethods (gtType ?G))))"
    by (rule main) (intro conjI s exGroup_runnable exCode_constructs_return
        exCode_destructs_return exRegistry_valid)
  with b have "\<exists>r st. RunSubTests (Suc 2) exCode exRegistry ?G (0, []) = Some (r, st) \<and>
      started (trace st) = map subtest_name (test_cases (itypeMethods (gtType ?G))) \<and>
      called (trace st) =
        map (\<lambda>m. (methodName m, SubT (subtest_name m))) (test_cases (itypeMethods (gtType ?G)))"
    by simp
  with n c have "\<exists>r st. RunSubTests (Suc 2) exCode exRegistry ?G (0, []) = Some (r, st) \<and>
      started (trace st) = [''FailNow'', ''Nested''] \<and>
      called (trace st) =
        [(''SubTestFailNow'', SubT ''FailNow''), (''SubTestNested'', SubT ''Nested'')]"
    by simp
  with s b n exGroup_runnable_all exCode_constructs_return exCode_destructs_return
    exRegistry_valid
  show ?thesis by (intro conjI)
qed

text \<open>
  C9, as stated, fails. In the group of two returning test cases, the \<^verbatim>\<open>Destruct\<close> of the
  first one's fixture reports a fatal failure on the handle it holds, the handle of the
  group: the run ends with that sub-unit, and the method \<^verbatim>\<open>SubTestRunTest\<close>, whose name
  has the prefix, is neither started as a sub-unit nor called.
\<close>

theorem prefixed_method_not_run_counterexample:
  "map methodName (test_cases (itypeMethods (gtType exGroupTwo))) =
     [''SubTestNested'', ''SubTestRunTest''] \<and>
   map_option (\<lambda>p. (fst p, started (trace (snd p)), called (trace (snd p))))
     (RunSubTests 3 exCodeDestructFails exRegistry exGroupTwo (0, [])) =
   Some (Inl (Exited GroupT), [''Nested''], [(''SubTestNested'', SubT ''Nested'')])"
  by code_simp
section \<open>Nested fixtures: order of construction and destruction\<close>

text \<open>
  C8. Let a field of the shape being resolved name fixture \<open>A\<close>, and a field of the dependency
  shape of \<open>A\<close>'s \<^verbatim>\<open>Construct\<close> name fixture \<open>B\<close>. With a new resolver, a shape whose
  dependencies are registered and free of cycles, and operations that return, the resolution
  returns, and: the trace holds a call of \<open>B\<close>'s \<^verbatim>\<open>Construct\<close> before the call of \<open>A\<close>'s;
  \<open>A\<close>'s call receives the value \<open>B\<close>'s call returned; the cleanup closure of \<open>B\<close> stands
  before that of \<open>A\<close> in the list; and running the list calls \<open>B\<close>'s \<^verbatim>\<open>Destruct\<close> before
  \<open>A\<close>'s, each with the context value its \<^verbatim>\<open>Construct\<close> returned.
\<close>

theorem dependency_constructed_and_destroyed_first:
  assumes "typeKind ty = Struct" and "resolvable k C reg (typeFields ty)"
    and "constructs_return C" and "destructs_return C" and "registry_valid reg"
    and "Resolved st = Map.empty" and "cleanUpCbs st = []"
    and "fldA \<in> set (typeFields ty)" and "fieldTag fldA = TagFixture nameA"
    and "reg nameA = Some eA"
    and "fldB \<in> set (construct_shape (Instance eA))" and "fieldTag fldB = TagFixture nameB"
    and "reg nameB = Some eB"
  shows "\<exists>vals st' pre1 dB vB cB pre2 dA vA cA post st''.
     resolve (Suc k) C reg t ty caller st = Some (Inr vals, st') \<and>
     news st st' =
       pre1 @ EvConstruct t (Instance eB) dB (Returns vB cB) #
       pre2 @ EvConstruct t (Instance eA) dA (Returns vA cA) # post \<and>
     (fieldName fldB, vB) \<in> set dA \<and> (fieldName fldA, vA) \<in> set vals \<and>
     cleanUpCbs st' =
       cleanups_from pre1 @ \<lparr>cbT = t, cbF = Instance eB, cbCtx = cB\<rparr> #
       cleanups_from pre2 @ \<lparr>cbT = t, cbF = Instance eA, cbCtx = cA\<rparr> # cleanups_from post \<and>
     runCleanUpCbs C (cleanUpCbs st') st' = (Inr (), st'') \<and>
     news st' st'' =
       map (destruct_event Return) (cleanups_from pre1) @
       EvDestruct t (Instance eB) cB Return #
       map (destruct_event Return) (cleanups_from pre2) @
       EvDestruct t (Instance eA) cA Return #
       map (destruct_event Return) (cleanups_from post)"
proof -
  from resolve_total[OF assms(3,1,2)] obtain vals st'
    where r: "resolve (Suc k) C reg t ty caller st = Some (Inr vals, st')" by blast
  then have rs: "resolved C reg t (typeFields ty) st vals st'"
    using resolve_resolved by blast
  from resolved_supplies[OF rs, of "[]"] assms(6)
  have D: "deps_first reg [] (news st st')"
    and V: "supplied reg (news st st') (typeFields ty) vals" by simp_all
  from supplied_field[OF V assms(8,9,10)] obtain vA
    where vA: "(fieldName fldA, vA) \<in> set vals"
      and exA: "list_ex (constructed_value (Instance eA) vA) (news st st')" by blast
  from constructed_value_split[OF exA] obtain pre hA dA cA post
    where n: "news st st' = pre @ EvConstruct hA (Instance eA) dA (Returns vA cA) # post"
    by blast
  from D have "supplied reg pre (construct_shape (Instance eA)) dA"
    unfolding n by (rule deps_first_at)
  from supplied_field[OF this assms(11,12,13)] obtain vB
    where vB: "(fieldName fldB, vB) \<in> set dA"
      and exB: "list_ex (constructed_value (Instance eB) vB) pre" by blast
  from constructed_value_split[OF exB] obtain pre1 hB dB cB pre2
    where p: "pre = pre1 @ EvConstruct hB (Instance eB) dB (Returns vB cB) # pre2" by blast
  from resolved_trace(3)[OF rs] have "hA = t" "hB = t"
    unfolding n p by simp_all
  with n p have n': "news st st' =
       pre1 @ EvConstruct t (Instance eB) dB (Returns vB cB) #
       pre2 @ EvConstruct t (Instance eA) dA (Returns vA cA) # post" by simp
  from resolved_trace(2)[OF rs] assms(7)
  have c: "cleanUpCbs st' = cleanups_from (news st st')" by simp
  then have c': "cleanUpCbs st' =
       cleanups_from pre1 @ \<lparr>cbT = t, cbF = Instance eB, cbCtx = cB\<rparr> #
       cleanups_from pre2 @ \<lparr>cbT = t, cbF = Instance eA, cbCtx = cA\<rparr> # cleanups_from post"
    unfolding n' by simp
  from resolved_cleanups_valid[OF rs assms(5)] c
  have "\<forall>cb\<in>set (cleanUpCbs st'). validateFixtureDestructMethod (TypeOf (cbF cb)) = None"
    by simp
  from runCleanUpCbs_returns[OF assms(4) this, of st'] obtain st''
    where d: "runCleanUpCbs C (cleanUpCbs st') st' = (Inr (), st'')"
      and "trace st'' = trace st' @ map (destruct_event Return) (cleanUpCbs st')" by blast
  then have "news st' st'' = map (destruct_event Return) (cleanUpCbs st')"
    by (rule_tac news_eq)
  then have d': "news st' st'' =
       map (destruct_event Return) (cleanups_from pre1) @
       EvDestruct t (Instance eB) cB Return #
       map (destruct_event Return) (cleanups_from pre2) @
       EvDestruct t (Instance eA) cA Return #
       map (destruct_event Return) (cleanups_from post)"
    unfolding c' by (simp add: destruct_event_def)
  from r n' vB vA c' d d' show ?thesis by blast
qed

theorem dependency_constructed_and_destroyed_first_witness:
  "typeKind (In SubTestNested 2) = Struct \<and>
   resolvable 2 exCode exRegistry (typeFields (In SubTestNested 2)) \<and>
   constructs_return exCode \<and> destructs_return exCode \<and> registry_valid exRegistry \<and>
   Resolved st0 = Map.empty \<and> cleanUpCbs st0 = [] \<and>
   fixtureField ''User'' ''MockUser'' ''MockUser'' \<in> set (typeFields (In SubTestNested 2)) \<and>
   fieldTag (fixtureField ''User'' ''MockUser'' ''MockUser'') = TagFixture ''MockUser'' \<and>
   exRegistry ''MockUser'' = Some \<lparr>Scope = ScopeCall, Instance = MockUserFixture\<rparr> \<and>
   fixtureField ''UserId'' ''string'' ''UserId'' \<in> set (construct_shape MockUserFixture) \<and>
   fieldTag (fixtureField ''UserId'' ''string'' ''UserId'') = TagFixture ''UserId'' \<and>
   exRegistry ''UserId'' = Some \<lparr>Scope = ScopeCall, Instance = UserIdFixture\<rparr> \<and>
   (\<exists>vals st' pre1 dB vB cB pre2 dA vA cA post st''.
     resolve (Suc 2) exCode exRegistry GroupT (In SubTestNested 2) ''SubTestNested'' st0 =
       Some (Inr vals, st') \<and>
     news st0 st' =
       pre1 @ EvConstruct GroupT UserIdFixture dB (Returns vB cB) #
       pre2 @ EvConstruct GroupT MockUserFixture dA (Returns vA cA) # post \<and>
     (fieldName (fixtureField ''UserId'' ''string'' ''UserId''), vB) \<in> set dA \<and>
     (fieldName (fixtureField ''User'' ''MockUser'' ''MockUser''), vA) \<in> set vals \<and>
     cleanUpCbs st' =
       cleanups_from pre1 @ \<lparr>cbT = GroupT, cbF = UserIdFixture, cbCtx = cB\<rparr> #
       cleanups_from pre2 @ \<lparr>cbT = GroupT, cbF = MockUserFixture, cbCtx = cA\<rparr> #
       cleanups_from post \<and>
     runCleanUpCbs exCode (cleanUpCbs st') st' = (Inr (), st'') \<and>
     news st' st'' =
       map (destruct_event Return) (cleanups_from pre1) @
       EvDestruct GroupT UserIdFixture cB Return #
       map (destruct_event Return) (cleanups_from pre2) @
       EvDestruct GroupT MockUserFixture cA Return #
       map (destruct_event Return) (cleanups_from post))"
proof -
  let ?ty = "In SubTestNested 2"
  let ?fA = "fixtureField ''User'' ''MockUser'' ''MockUser''"
  let ?fB = "fixtureField ''UserId'' ''string'' ''UserId''"
  let ?eA = "\<lparr>Scope = ScopeCall, Instance = MockUserFixture\<rparr>"
  let ?eB = "\<lparr>Scope = ScopeCall, Instance = UserIdFixture\<rparr>"
  have k: "typeKind ?ty = Struct" by code_simp
  have rv: "resolvable 2 exCode exRegistry (typeFields ?ty)" by code_simp
  have a: "?fA \<in> set (typeFields ?ty)" by code_simp
  have ta: "fieldTag ?fA = TagFixture ''MockUser''" by code_simp
  have ra: "exRegistry ''MockUser'' = Some ?eA" by (simp add: exRegistry_def)
  have b: "?fB \<in> set (construct_shape MockUserFixture)" by code_simp
  have b': "?fB \<in> set (construct_shape (Instance ?eA))" using b by simp
  have tb: "fieldTag ?fB = TagFixture ''UserId''" by code_simp
  have rb: "exRegistry ''UserId'' = Some ?eB" by (simp add: exRegistry_def)
  note main = dependency_constructed_and_destroyed_first[where t = GroupT
      and caller = "''SubTestNested''",
      OF k rv exCode_constructs_return exCode_destructs_return exRegistry_valid st0_fresh
        a ta ra b' tb rb]
  from main have c: "\<exists>vals st' pre1 dB vB cB pre2 dA vA cA post st''.
     resolve (Suc 2) exCode exRegistry GroupT (In SubTestNested 2) ''SubTestNested'' st0 =
       Some (Inr vals, st') \<and>
     news st0 st' =
       pre1 @ EvConstruct GroupT UserIdFixture dB (Returns vB cB) #
       pre2 @ EvConstruct GroupT MockUserFixture dA (Returns vA cA) # post \<and>
     (fieldName (fixtureField ''UserId'' ''string'' ''UserId''), vB) \<in> set dA \<and>
     (fieldName (fixtureField ''User'' ''MockUser'' ''MockUser''), vA) \<in> set vals \<and>
     cleanUpCbs st' =
       cleanups_from pre1 @ \<lparr>cbT = GroupT, cbF = UserIdFixture, cbCtx = cB\<rparr> #
       cleanups_from pre2 @ \<lparr>cbT = GroupT, cbF = MockUserFixture, cbCtx = cA\<rparr> #
       cleanups_from post \<and>
     runCleanUpCbs exCode (cleanUpCbs st') st' = (Inr (), st'') \<and>
     news st' st'' =
       map (destruct_event Return) (cleanups_from pre1) @
       EvDestruct GroupT UserIdFixture cB Return #
       map (destruct_event Return) (cleanups_from pre2) @
       EvDestruct GroupT MockUserFixture cA Return #
       map (destruct_event Return) (cleanups_from post)"
    by simp
  from k rv exCode_constructs_return exCode_destructs_return exRegistry_valid st0_fresh
    a ta ra b tb rb c
  show ?thesis by (intro conjI)
qed

section \<open>Fixtures of call scope\<close>

text \<open>
  C2. Resolving a shape whose dependencies are registered and free of cycles, with
  \<^verbatim>\<open>Construct\<close> operations that return, returns; and for the fields that refer to instance
  \<open>f\<close> through an entry of call scope, say \<open>N\<close> of them: the trace holds, in the declaration
  order of these fields, \<open>N\<close> calls of \<open>f\<close>'s \<^verbatim>\<open>Construct\<close>, one for each field, whose result
  is the value of that field; each appended its own cleanup closure, so \<open>N\<close> closures for
  \<open>f\<close> stand in the list in the same order. When every name bound to \<open>f\<close> has call scope,
  the calls of \<open>f\<close>'s \<^verbatim>\<open>Construct\<close>, and its cleanup closures, are exactly \<open>N\<close> plus the
  references to \<open>f\<close> in the dependency shapes of the fixtures constructed on the way.
\<close>

theorem call_scope_constructs_per_reference:
  assumes "typeKind ty = Struct" and "resolvable k C reg (typeFields ty)"
    and "constructs_return C"
  shows "\<exists>vals st' evs.
     resolve (Suc k) C reg t ty caller st = Some (Inr vals, st') \<and>
     subseq evs (news st st') \<and>
     list_all2 (constructs_for t f)
       (filter (call_ref reg f \<circ> fst) (zip (typeFields ty) vals)) evs \<and>
     length evs = length (filter (call_ref reg f) (typeFields ty)) \<and>
     cleanUpCbs st' = cleanUpCbs st @ cleanups_from (news st st') \<and>
     subseq (cleanups_from evs) (cleanups_from (news st st')) \<and>
     length (cleanups_from evs) = length (filter (call_ref reg f) (typeFields ty)) \<and>
     list_all (\<lambda>cb. cbT cb = t \<and> cbF cb = f) (cleanups_from evs) \<and>
     (only_call reg f \<longrightarrow>
        length (filter (is_construct_of f) (news st st')) =
          length (filter (call_ref reg f) (typeFields ty)) + nested_refs reg f (news st st') \<and>
        length (filter (\<lambda>cb. cbF cb = f) (cleanups_from (news st st'))) =
          length (filter (call_ref reg f) (typeFields ty)) + nested_refs reg f (news st st'))"
proof -
  let ?fs = "typeFields ty"
  from resolve_total[OF assms(3,1,2)] obtain vals st'
    where r: "resolve (Suc k) C reg t ty caller st = Some (Inr vals, st')" by blast
  then have rs: "resolved C reg t ?fs st vals st'"
    using resolve_resolved by blast
  from resolved_call_refs[OF rs] obtain evs where s: "subseq evs (news st st')"
    and a: "list_all2 (constructs_for t f) (filter (call_ref reg f \<circ> fst) (zip ?fs vals)) evs"
    by blast
  from resolved_length[OF rs]
  have l0: "length (filter (call_ref reg f \<circ> fst) (zip ?fs vals)) =
      length (filter (call_ref reg f) ?fs)"
    by (intro filter_zip_length) simp
  from a have "length evs = length (filter (call_ref reg f \<circ> fst) (zip ?fs vals))"
    by (simp add: list_all2_lengthD)
  with l0 have l: "length evs = length (filter (call_ref reg f) ?fs)" by simp
  note c = resolved_trace(2)[OF rs]
  from s have cs: "subseq (cleanups_from evs) (cleanups_from (news st st'))"
    by (rule cleanups_from_subseq)
  from constructs_for_cleanups[OF a] l0
  have cl: "length (cleanups_from evs) = length (filter (call_ref reg f) ?fs)"
    and ca: "list_all (\<lambda>cb. cbT cb = t \<and> cbF cb = f) (cleanups_from evs)" by simp_all
  have n: "only_call reg f \<longrightarrow>
        length (filter (is_construct_of f) (news st st')) =
          length (filter (call_ref reg f) ?fs) + nested_refs reg f (news st st') \<and>
        length (filter (\<lambda>cb. cbF cb = f) (cleanups_from (news st st'))) =
          length (filter (call_ref reg f) ?fs) + nested_refs reg f (news st st')"
  proof
    assume oc: "only_call reg f"
    from resolved_call_count[OF rs oc] only_call_refs[OF oc]
    have k: "length (filter (is_construct_of f) (news st st')) =
          length (filter (call_ref reg f) ?fs) + nested_refs reg f (news st st')" by simp
    from resolved_trace(3)[OF rs]
    have "list_all (returned_construct t) (filter (is_construct_of f) (news st st'))"
      by (simp add: list_all_iff)
    from cleanups_from_length[OF this] k
    show "length (filter (is_construct_of f) (news st st')) =
          length (filter (call_ref reg f) ?fs) + nested_refs reg f (news st st') \<and>
        length (filter (\<lambda>cb. cbF cb = f) (cleanups_from (news st st'))) =
          length (filter (call_ref reg f) ?fs) + nested_refs reg f (news st st')"
      by (simp add: cleanups_from_filter)
  qed
  from r s a l c cs cl ca n show ?thesis by blast
qed

theorem call_scope_constructs_per_reference_witness:
  "typeKind (In SubTestCallScopedStringFixture 2) = Struct \<and>
   resolvable 1 exCode exRegistry (typeFields (In SubTestCallScopedStringFixture 2)) \<and>
   constructs_return exCode \<and> only_call exRegistry UserIdFixture \<and>
   length (filter (call_ref exRegistry UserIdFixture)
     (typeFields (In SubTestCallScopedStringFixture 2))) = 3 \<and>
   (\<exists>vals st' evs.
     resolve (Suc 1) exCode exRegistry GroupT (In SubTestCallScopedStringFixture 2)
       ''SubTestCallScopedStringFixture'' st0 = Some (Inr vals, st') \<and>
     vals = [(''UserId1'', UserId 1), (''UserId2'', UserId 2), (''UserId3'', UserId 3)] \<and>
     news st0 st' =
       [EvConstruct GroupT UserIdFixture [] (Returns (UserId 1) Nil),
        EvConstruct GroupT UserIdFixture [] (Returns (UserId 2) Nil),
        EvConstruct GroupT UserIdFixture [] (Returns (UserId 3) Nil)] \<and>
     subseq evs (news st0 st') \<and>
     list_all2 (constructs_for GroupT UserIdFixture)
       (filter (call_ref exRegistry UserIdFixture \<circ> fst)
          (zip (typeFields (In SubTestCallScopedStringFixture 2)) vals)) evs \<and>
     length evs = 3 \<and>
     cleanUpCbs st' = cleanUpCbs st0 @ cleanups_from (news st0 st') \<and>
     subseq (cleanups_from evs) (cleanups_from (news st0 st')) \<and>
     length (cleanups_from evs) = 3 \<and>
     list_all (\<lambda>cb. cbT cb = GroupT \<and> cbF cb = UserIdFixture) (cleanups_from evs) \<and>
     length (filter (is_construct_of UserIdFixture) (news st0 st')) =
       3 + nested_refs exRegistry UserIdFixture (news st0 st') \<and>
     length (filter (\<lambda>cb. cbF cb = UserIdFixture) (cleanups_from (news st0 st'))) =
       3 + nested_refs exRegistry UserIdFixture (news st0 st'))"
proof -
  let ?ty = "In SubTestCallScopedStringFixture 2"
  let ?f = UserIdFixture
  have k: "typeKind ?ty = Struct" by code_simp
  have rv: "resolvable 1 exCode exRegistry (typeFields ?ty)" by code_simp
  have n3: "length (filter (call_ref exRegistry ?f) (typeFields ?ty)) = 3" by code_simp
  note oc = exRegistry_only_call
  from call_scope_constructs_per_reference[where t = GroupT and f = ?f and st = st0
      and caller = "''SubTestCallScopedStringFixture''", OF k rv exCode_constructs_return]
  obtain vals st' evs where
    r: "resolve (Suc 1) exCode exRegistry GroupT ?ty ''SubTestCallScopedStringFixture'' st0 =
          Some (Inr vals, st')"
    and s: "subseq evs (news st0 st')"
    and a: "list_all2 (constructs_for GroupT ?f)
       (filter (call_ref exRegistry ?f \<circ> fst) (zip (typeFields ?ty) vals)) evs"
    and l: "length evs = length (filter (call_ref exRegistry ?f) (typeFields ?ty))"
    and c: "cleanUpCbs st' = cleanUpCbs st0 @ cleanups_from (news st0 st')"
    and cs: "subseq (cleanups_from evs) (cleanups_from (news st0 st'))"
    and cl: "length (cleanups_from evs) = length (filter (call_ref exRegistry ?f) (typeFields ?ty))"
    and ca: "list_all (\<lambda>cb. cbT cb = GroupT \<and> cbF cb = ?f) (cleanups_from evs)"
    and n: "only_call exRegistry ?f \<longrightarrow>
        length (filter (is_construct_of ?f) (news st0 st')) =
          length (filter (call_ref exRegistry ?f) (typeFields ?ty)) +
          nested_refs exRegistry ?f (news st0 st') \<and>
        length (filter (\<lambda>cb. cbF cb = ?f) (cleanups_from (news st0 st'))) =
          length (filter (call_ref exRegistry ?f) (typeFields ?ty)) +
          nested_refs exRegistry ?f (news st0 st')"
    by blast
  from exCallScoped_run r
  have v: "vals = [(''UserId1'', UserId 1), (''UserId2'', UserId 2), (''UserId3'', UserId 3)]"
    and tr: "trace st' =
       [EvConstruct GroupT UserIdFixture [] (Returns (UserId 1) Nil),
        EvConstruct GroupT UserIdFixture [] (Returns (UserId 2) Nil),
        EvConstruct GroupT UserIdFixture [] (Returns (UserId 3) Nil)]"
    by simp_all
  have nw: "news st0 st' =
       [EvConstruct GroupT UserIdFixture [] (Returns (UserId 1) Nil),
        EvConstruct GroupT UserIdFixture [] (Returns (UserId 2) Nil),
        EvConstruct GroupT UserIdFixture [] (Returns (UserId 3) Nil)]"
    by (rule news_eq) (simp add: tr st0_def)
  from n oc n3 have n1: "length (filter (is_construct_of ?f) (news st0 st')) =
       3 + nested_refs exRegistry ?f (news st0 st')"
    and n2: "length (filter (\<lambda>cb. cbF cb = ?f) (cleanups_from (news st0 st'))) =
       3 + nested_refs exRegistry ?f (news st0 st')" by simp_all
  from l cl n3 have l3: "length evs = 3" and cl3: "length (cleanups_from evs) = 3" by simp_all
  have "\<exists>vals st' evs.
     resolve (Suc 1) exCode exRegistry GroupT ?ty ''SubTestCallScopedStringFixture'' st0 =
       Some (Inr vals, st') \<and>
     vals = [(''UserId1'', UserId 1), (''UserId2'', UserId 2), (''UserId3'', UserId 3)] \<and>
     news st0 st' =
       [EvConstruct GroupT UserIdFixture [] (Returns (UserId 1) Nil),
        EvConstruct GroupT UserIdFixture [] (Returns (UserId 2) Nil),
        EvConstruct GroupT UserIdFixture [] (Returns (UserId 3) Nil)] \<and>
     subseq evs (news st0 st') \<and>
     list_all2 (constructs_for GroupT ?f)
       (filter (call_ref exRegistry ?f \<circ> fst) (zip (typeFields ?ty) vals)) evs \<and>
     length evs = 3 \<and>
     cleanUpCbs st' = cleanUpCbs st0 @ cleanups_from (news st0 st') \<and>
     subseq (cleanups_from evs) (cleanups_from (news st0 st')) \<and>
     length (cleanups_from evs) = 3 \<and>
     list_all (\<lambda>cb. cbT cb = GroupT \<and> cbF cb = ?f) (cleanups_from evs) \<and>
     length (filter (is_construct_of ?f) (news st0 st')) =
       3 + nested_refs exRegistry ?f (news st0 st') \<and>
     length (filter (\<lambda>cb. cbF cb = ?f) (cleanups_from (news st0 st'))) =
       3 + nested_refs exRegistry ?f (news st0 st')"
    apply (rule exI[of _ vals], rule exI[of _ st'], rule exI[of _ evs])
    using r v nw s a l3 c cs cl3 ca n1 n2 by (intro conjI)
  with k rv exCode_constructs_return oc n3 show ?thesis by (intro conjI)
qed

section \<open>Fixtures of sub-test scope\<close>

text \<open>
  C1, as amended. Let every name bound to instance \<open>f\<close> be registered with sub-test scope,
  and let a new resolver resolve a shape whose dependencies are registered and free of
  cycles, with \<^verbatim>\<open>Construct\<close> operations that return. The resolution returns; and when \<open>f\<close> is
  referred to at all, by fields of the shape or by fields of the dependency shapes of the
  fixtures constructed, whatever the number of these references and the names they use:
  the trace holds exactly one call of \<open>f\<close>'s \<^verbatim>\<open>Construct\<close>; the value it returned is the cache
  entry of \<open>f\<close>; the values set are one for each field, in the order of the fields, in the
  shape and in the dependencies passed to every fixture constructed, and the value of
  every field that refers to \<open>f\<close> is that value; and the list of cleanup closures holds
  exactly one for \<open>f\<close>, with the context that call returned.
\<close>

theorem subtest_scope_constructs_once:
  assumes "typeKind ty = Struct" and "resolvable k C reg (typeFields ty)"
    and "constructs_return C" and "only_subtest reg f"
    and "Resolved st = Map.empty" and "cleanUpCbs st = []"
  shows "\<exists>vals st'.
     resolve (Suc k) C reg t ty caller st = Some (Inr vals, st') \<and>
     (0 < length (filter (refers reg f) (typeFields ty)) + nested_refs reg f (news st st') \<longrightarrow>
      (\<exists>d v c.
         filter (is_construct_of f) (news st st') = [EvConstruct t f d (Returns v c)] \<and>
         Resolved st' f = Some v \<and>
         wired reg f v (typeFields ty) vals \<and>
         deps_wired reg f v (news st st') \<and>
         filter (\<lambda>cb. cbF cb = f) (cleanUpCbs st') = [\<lparr>cbT = t, cbF = f, cbCtx = c\<rparr>]))"
proof -
  let ?fs = "typeFields ty"
  from resolve_total[OF assms(3,1,2)] obtain vals st'
    where r: "resolve (Suc k) C reg t ty caller st = Some (Inr vals, st')" by blast
  then have rs: "resolved C reg t ?fs st vals st'"
    using resolve_resolved by blast
  from assms(5) have "cache_inv reg f [] st" by (simp add: cache_inv_def)
  from resolved_shares_cache[OF rs assms(4,2) this]
  have inv: "cache_inv reg f (news st st') st'"
    and none: "Resolved st' f = None \<longrightarrow> filter (refers reg f) ?fs = []"
    and some: "\<forall>v. Resolved st' f = Some v \<longrightarrow> wired reg f v ?fs vals" by simp_all
  have "\<exists>d v c.
         filter (is_construct_of f) (news st st') = [EvConstruct t f d (Returns v c)] \<and>
         Resolved st' f = Some v \<and>
         wired reg f v ?fs vals \<and>
         deps_wired reg f v (news st st') \<and>
         filter (\<lambda>cb. cbF cb = f) (cleanUpCbs st') = [\<lparr>cbT = t, cbF = f, cbCtx = c\<rparr>]"
    if pos: "0 < length (filter (refers reg f) ?fs) + nested_refs reg f (news st st')"
  proof (cases "Resolved st' f")
    case None
    with inv none have "filter (refers reg f) ?fs = []" "nested_refs reg f (news st st') = 0"
      by (simp_all add: cache_inv_def)
    with pos show ?thesis by simp
  next
    case (Some v)
    with inv obtain h d c
      where fl: "filter (is_construct_of f) (news st st') = [EvConstruct h f d (Returns v c)]"
        and dw: "deps_wired reg f v (news st st')" by (auto simp: cache_inv_def)
    from resolved_trace(3)[OF rs]
    have "list_all (returned_construct t) (filter (is_construct_of f) (news st st'))"
      by (simp add: list_all_iff)
    with fl have "h = t" by simp
    with fl have fl': "filter (is_construct_of f) (news st st') = [EvConstruct t f d (Returns v c)]"
      by simp
    from resolved_trace(2)[OF rs] assms(6)
    have "cleanUpCbs st' = cleanups_from (news st st')" by simp
    then have "filter (\<lambda>cb. cbF cb = f) (cleanUpCbs st') = [\<lparr>cbT = t, cbF = f, cbCtx = c\<rparr>]"
      by (simp add: cleanups_from_filter fl')
    with fl' Some some dw show ?thesis by (intro exI[of _ d] exI[of _ v] exI[of _ c]) simp
  qed
  then have "0 < length (filter (refers reg f) ?fs) + nested_refs reg f (news st st') \<longrightarrow>
      (\<exists>d v c.
         filter (is_construct_of f) (news st st') = [EvConstruct t f d (Returns v c)] \<and>
         Resolved st' f = Some v \<and>
         wired reg f v ?fs vals \<and>
         deps_wired reg f v (news st st') \<and>
         filter (\<lambda>cb. cbF cb = f) (cleanUpCbs st') = [\<lparr>cbT = t, cbF = f, cbCtx = c\<rparr>])"
    by (rule impI)
  with r show ?thesis by (intro exI[of _ vals] exI[of _ st'] conjI)
qed

theorem subtest_scope_constructs_once_witness:
  "typeKind (In SubTestTwoNames 2) = Struct \<and>
   resolvable 1 exCode exRegistry (typeFields (In SubTestTwoNames 2)) \<and>
   constructs_return exCode \<and> only_subtest exRegistry TmpDirFixture \<and>
   Resolved st0 = Map.empty \<and> cleanUpCbs st0 = [] \<and>
   map fieldTag (typeFields (In SubTestTwoNames 2)) =
     [TagFixture ''TmpDir'', TagFixture ''WorkDir'', TagFixture ''TmpDir''] \<and>
   length (filter (refers exRegistry TmpDirFixture)
     (typeFields (In SubTestTwoNames 2))) = 3 \<and>
   (\<exists>vals st'.
      resolve (Suc 1) exCode exRegistry GroupT (In SubTestTwoNames 2)
        ''SubTestTwoNames'' st0 = Some (Inr vals, st') \<and>
      vals = [(''Dir1'', Dir 1), (''Dir2'', Dir 1), (''Dir3'', Dir 1)] \<and>
      filter (is_construct_of TmpDirFixture) (news st0 st') =
        [EvConstruct GroupT TmpDirFixture [] (Returns (Dir 1) (Dir 1))] \<and>
      Resolved st' TmpDirFixture = Some (Dir 1) \<and>
      wired exRegistry TmpDirFixture (Dir 1) (typeFields (In SubTestTwoNames 2)) vals \<and>
      deps_wired exRegistry TmpDirFixture (Dir 1) (news st0 st') \<and>
      filter (\<lambda>cb. cbF cb = TmpDirFixture) (cleanUpCbs st') =
        [\<lparr>cbT = GroupT, cbF = TmpDirFixture, cbCtx = Dir 1\<rparr>])"
proof -
  let ?ty = "In SubTestTwoNames 2"
  let ?f = TmpDirFixture
  have k: "typeKind ?ty = Struct" by code_simp
  have rv: "resolvable 1 exCode exRegistry (typeFields ?ty)" by code_simp
  have tg: "map fieldTag (typeFields ?ty) =
     [TagFixture ''TmpDir'', TagFixture ''WorkDir'', TagFixture ''TmpDir'']" by code_simp
  have n3: "length (filter (refers exRegistry ?f) (typeFields ?ty)) = 3" by code_simp
  note os = exRegistry_only_subtest
  have "\<exists>vals st'.
     resolve (Suc 1) exCode exRegistry GroupT ?ty ''SubTestTwoNames'' st0 =
       Some (Inr vals, st') \<and>
     (0 < length (filter (refers exRegistry ?f) (typeFields ?ty)) +
          nested_refs exRegistry ?f (news st0 st') \<longrightarrow>
      (\<exists>d v c.
         filter (is_construct_of ?f) (news st0 st') = [EvConstruct GroupT ?f d (Returns v c)] \<and>
         Resolved st' ?f = Some v \<and>
         wired exRegistry ?f v (typeFields ?ty) vals \<and>
         deps_wired exRegistry ?f v (news st0 st') \<and>
         filter (\<lambda>cb. cbF cb = ?f) (cleanUpCbs st') = [\<lparr>cbT = GroupT, cbF = ?f, cbCtx = c\<rparr>]))"
    by (rule subtest_scope_constructs_once[OF k rv exCode_constructs_return os st0_fresh])
  then obtain vals st' where
    r: "resolve (Suc 1) exCode exRegistry GroupT ?ty ''SubTestTwoNames'' st0 =
          Some (Inr vals, st')"
    and m: "0 < length (filter (refers exRegistry ?f) (typeFields ?ty)) +
          nested_refs exRegistry ?f (news st0 st') \<longrightarrow>
      (\<exists>d v c.
         filter (is_construct_of ?f) (news st0 st') = [EvConstruct GroupT ?f d (Returns v c)] \<and>
         Resolved st' ?f = Some v \<and>
         wired exRegistry ?f v (typeFields ?ty) vals \<and>
         deps_wired exRegistry ?f v (news st0 st') \<and>
         filter (\<lambda>cb. cbF cb = ?f) (cleanUpCbs st') = [\<lparr>cbT = GroupT, cbF = ?f, cbCtx = c\<rparr>])"
    by (elim exE conjE) (rule that)
  from m n3 obtain d v c where
    fl: "filter (is_construct_of ?f) (news st0 st') = [EvConstruct GroupT ?f d (Returns v c)]"
    and cv: "Resolved st' ?f = Some v"
    and w: "wired exRegistry ?f v (typeFields ?ty) vals"
    and dw: "deps_wired exRegistry ?f v (news st0 st')"
    and cb: "filter (\<lambda>cb. cbF cb = ?f) (cleanUpCbs st') = [\<lparr>cbT = GroupT, cbF = ?f, cbCtx = c\<rparr>]"
    by auto
  from exTwoNames_run r
  have v: "vals = [(''Dir1'', Dir 1), (''Dir2'', Dir 1), (''Dir3'', Dir 1)]"
    and tr: "trace st' = [EvConstruct GroupT TmpDirFixture [] (Returns (Dir 1) (Dir 1))]"
    by simp_all
  have nw: "news st0 st' = [EvConstruct GroupT TmpDirFixture [] (Returns (Dir 1) (Dir 1))]"
    by (rule news_eq) (simp add: tr st0_def)
  from fl have "[EvConstruct GroupT ?f d (Returns v c)] =
      [EvConstruct GroupT TmpDirFixture [] (Returns (Dir 1) (Dir 1))]"
    unfolding nw by auto
  then have dvc: "d = []" "v = Dir 1" "c = Dir 1" by auto
  have "\<exists>vals st'.
      resolve (Suc 1) exCode exRegistry GroupT ?ty ''SubTestTwoNames'' st0 =
        Some (Inr vals, st') \<and>
      vals = [(''Dir1'', Dir 1), (''Dir2'', Dir 1), (''Dir3'', Dir 1)] \<and>
      filter (is_construct_of ?f) (news st0 st') =
        [EvConstruct GroupT ?f [] (Returns (Dir 1) (Dir 1))] \<and>
      Resolved st' ?f = Some (Dir 1) \<and>
      wired exRegistry ?f (Dir 1) (typeFields ?ty) vals \<and>
      deps_wired exRegistry ?f (Dir 1) (news st0 st') \<and>
      filter (\<lambda>cb. cbF cb = ?f) (cleanUpCbs st') = [\<lparr>cbT = GroupT, cbF = ?f, cbCtx = Dir 1\<rparr>]"
    apply (rule exI[of _ vals], rule exI[of _ st'])
    using r v fl cv w dw cb unfolding dvc by (intro conjI)
  with k rv exCode_constructs_return os st0_fresh tg n3 show ?thesis by (intro conjI)
qed

text \<open>
  C1, as stated, fails for an instance that has a name of sub-test scope and a name of call
  scope, which \<open>RegisterFixture\<close> accepts. The fields \<^verbatim>\<open>Dir1\<close> and \<^verbatim>\<open>Dir3\<close> name the
  directory fixture by its name of sub-test scope and \<^verbatim>\<open>Dir2\<close> by the other one:
  \<^verbatim>\<open>Construct\<close> is called twice on the instance, two cleanup closures are appended, and the
  field \<^verbatim>\<open>Dir2\<close> does not share the value of the two others.
\<close>

theorem second_name_of_call_scope_counterexample:
  "fst (RegisterFixture exRegistry ''FreshDir'' TmpDirFixture ScopeCall) = None \<and>
   map_option (\<lambda>e. (Scope e, Instance e)) (exRegistryMixed ''TmpDir'') =
     Some (ScopeSubTest, TmpDirFixture) \<and>
   map_option (\<lambda>e. (Scope e, Instance e)) (exRegistryMixed ''FreshDir'') =
     Some (ScopeCall, TmpDirFixture) \<and>
   map fieldTag (typeFields (In SubTestMixedNames 2)) =
     [TagFixture ''TmpDir'', TagFixture ''FreshDir'', TagFixture ''TmpDir''] \<and>
   map_option (\<lambda>p. (fst p, trace (snd p), cleanUpCbs (snd p)))
     (resolve 2 exCode exRegistryMixed GroupT (In SubTestMixedNames 2)
        ''SubTestMixedNames'' st0) =
   Some (Inr [(''Dir1'', Dir 1), (''Dir2'', Dir 2), (''Dir3'', Dir 1)],
     [EvConstruct GroupT TmpDirFixture [] (Returns (Dir 1) (Dir 1)),
      EvConstruct GroupT TmpDirFixture [] (Returns (Dir 2) (Dir 2))],
     [\<lparr>cbT = GroupT, cbF = TmpDirFixture, cbCtx = Dir 1\<rparr>,
      \<lparr>cbT = GroupT, cbF = TmpDirFixture, cbCtx = Dir 2\<rparr>])"
  by code_simp
end
